theory Spec2Isabelle
  imports Main "HOL-Library.Sublist" "HOL-Library.Char_ord" "HOL-Library.List_Lexorder"
begin

section \<open>Python strings\<close>

text \<open>
  A Python \<open>str\<close> is a sequence of Unicode code points; a file on disk is a sequence of
  bytes. The model keeps the two apart: \<open>str\<close> is a list of code points, and the lines of
  a file are byte strings (\<open>string\<close>), related by the UTF-8 codec that \<open>open(...,
  encoding="utf-8")\<close> applies.
\<close>

type_synonym str = "nat list"

definition ustr :: "string \<Rightarrow> str" where
  "ustr s = map of_char s"

text \<open>
  \<open>str.isspace\<close>, which is also the class \<open>\s\<close> of a \<open>str\<close> pattern: the code point
  ranges of Unicode whitespace.
\<close>

definition in_ranges :: "(nat \<times> nat) list \<Rightarrow> nat \<Rightarrow> bool" where
  "in_ranges rs c = list_ex (\<lambda>(lo, hi). lo \<le> c \<and> c \<le> hi) rs"

definition whitespace :: "(nat \<times> nat) list" where
  "whitespace = [(9, 13), (28, 32), (133, 133), (160, 160), (5760, 5760), (8192, 8202),
     (8232, 8233), (8239, 8239), (8287, 8287), (12288, 12288)]"

definition isspace :: "nat \<Rightarrow> bool" where
  "isspace c = in_ranges whitespace c"

definition strip :: "str \<Rightarrow> str" where
  "strip s = rev (dropWhile isspace (rev (dropWhile isspace s)))"

text \<open>
  \<open>str.lower\<close>, one code point at a time. The mapping is the one of the Unicode character
  database on Basic Latin, Latin-1 Supplement, Latin Extended-A, the two horned letters of
  Latin Extended-B, Latin Extended Additional and the Kelvin sign; U+0130 lowercases to two
  code points. Every other code point is left as it is: cased letters of other scripts are
  outside the model, and none of them lowercases to a letter of the alphabets below.
\<close>

definition lower_cp :: "nat \<Rightarrow> nat list" where
  "lower_cp c =
     (if 65 \<le> c \<and> c \<le> 90 then [c + 32]
      else if 192 \<le> c \<and> c \<le> 222 \<and> c \<noteq> 215 then [c + 32]
      else if 256 \<le> c \<and> c \<le> 303 \<and> even c then [c + 1]
      else if c = 304 then [105, 775]
      else if 306 \<le> c \<and> c \<le> 311 \<and> even c then [c + 1]
      else if 313 \<le> c \<and> c \<le> 328 \<and> odd c then [c + 1]
      else if 330 \<le> c \<and> c \<le> 375 \<and> even c then [c + 1]
      else if c = 376 then [255]
      else if 377 \<le> c \<and> c \<le> 382 \<and> odd c then [c + 1]
      else if c = 416 \<or> c = 431 then [c + 1]
      else if 7680 \<le> c \<and> c \<le> 7829 \<and> even c then [c + 1]
      else if c = 7838 then [223]
      else if 7840 \<le> c \<and> c \<le> 7935 \<and> even c then [c + 1]
      else if c = 8490 then [107]
      else [c])"

definition lower :: "str \<Rightarrow> str" where
  "lower s = concat (map lower_cp s)"

section \<open>The patterns of the re module\<close>

text \<open>
  A pattern is kept as its syntax tree. \<open>rx_match r xs g\<close> lists, in the order in which
  the backtracking matcher of \<open>re\<close> tries them, the ways \<open>r\<close> can match a prefix of
  \<open>xs\<close>: each is the rest of the subject after the match, with the groups captured so far.
  The head of the list is the match that \<open>re\<close> reports. A greedy repetition tries one more
  iteration before stopping, a lazy one stops first; an iteration that consumes nothing
  ends a repetition.
\<close>

datatype cset =
    Chr nat
  | AnyChar
  | OneOf "(nat \<times> nat) list"
  | NoneOf "(nat \<times> nat) list"
  | Space
  | NonSpace

fun in_cset :: "cset \<Rightarrow> nat \<Rightarrow> bool" where
  "in_cset (Chr d) c = (c = d)"
| "in_cset AnyChar c = True"
| "in_cset (OneOf rs) c = in_ranges rs c"
| "in_cset (NoneOf rs) c = (\<not> in_ranges rs c)"
| "in_cset Space c = isspace c"
| "in_cset NonSpace c = (\<not> isspace c)"

datatype rx =
    Eps
  | Atom cset
  | Seq rx rx
  | Alt rx rx
  | Star rx
  | Lazy rx
  | Opt rx
  | Grp nat rx

type_synonym caps = "(nat \<times> str) list"

function rx_match :: "rx \<Rightarrow> str \<Rightarrow> caps \<Rightarrow> (str \<times> caps) list" where
  "rx_match Eps xs g = [(xs, g)]"
| "rx_match (Atom c) xs g =
     (case xs of [] \<Rightarrow> [] | x # xs' \<Rightarrow> if in_cset c x then [(xs', g)] else [])"
| "rx_match (Seq a b) xs g =
     concat (map (\<lambda>(ys, h). rx_match b ys h) (rx_match a xs g))"
| "rx_match (Alt a b) xs g = rx_match a xs g @ rx_match b xs g"
| "rx_match (Star a) xs g =
     concat (map (\<lambda>(ys, h). if length ys < length xs then rx_match (Star a) ys h else [])
       (rx_match a xs g)) @ [(xs, g)]"
| "rx_match (Lazy a) xs g =
     (xs, g) # concat (map (\<lambda>(ys, h). if length ys < length xs then rx_match (Lazy a) ys h else [])
       (rx_match a xs g))"
| "rx_match (Opt a) xs g = rx_match a xs g @ [(xs, g)]"
| "rx_match (Grp n a) xs g =
     map (\<lambda>(ys, h). (ys, (n, take (length xs - length ys) xs) # h)) (rx_match a xs g)"
  by pat_completeness auto
termination
  by (relation "measures [\<lambda>(r, xs, g). size r, \<lambda>(r, xs, g). length xs]") auto

declare rx_match.simps(5,6) [simp del]

definition lits :: "str \<Rightarrow> rx" where
  "lits s = foldr (\<lambda>c r. Seq (Atom (Chr c)) r) s Eps"

definition lit :: "string \<Rightarrow> rx" where
  "lit s = lits (ustr s)"

definition Plus :: "rx \<Rightarrow> rx" where
  "Plus r = Seq r (Star r)"

fun groups_of :: "rx \<Rightarrow> nat list" where
  "groups_of Eps = []"
| "groups_of (Atom c) = []"
| "groups_of (Seq a b) = groups_of a @ groups_of b"
| "groups_of (Alt a b) = groups_of a @ groups_of b"
| "groups_of (Star a) = groups_of a"
| "groups_of (Lazy a) = groups_of a"
| "groups_of (Opt a) = groups_of a"
| "groups_of (Grp n a) = n # groups_of a"

text \<open>
  The match at one position: the matched text, the rest of the subject and the groups.
  No pattern of this program can match the empty string (\<open>nullable\<close> below is false of
  each), so what \<open>re\<close> does after an empty match is not modelled: a match that consumes
  nothing counts as no match at that position.
\<close>

definition first_match :: "rx \<Rightarrow> str \<Rightarrow> (str \<times> str \<times> caps) option" where
  "first_match r xs =
     (case rx_match r xs [] of
        [] \<Rightarrow> None
      | (ys, g) # _ \<Rightarrow>
          if length ys < length xs then Some (take (length xs - length ys) xs, ys, g)
          else None)"

fun nullable :: "rx \<Rightarrow> bool" where
  "nullable Eps = True"
| "nullable (Atom c) = False"
| "nullable (Seq a b) = (nullable a \<and> nullable b)"
| "nullable (Alt a b) = (nullable a \<or> nullable b)"
| "nullable (Star a) = True"
| "nullable (Lazy a) = True"
| "nullable (Opt a) = True"
| "nullable (Grp n a) = nullable a"

text \<open>\<open>m.group(n)\<close>: \<open>None\<close> for a group that took no part in the match.\<close>

definition group :: "caps \<Rightarrow> nat \<Rightarrow> str option" where
  "group g n = map_of g n"

text \<open>\<open>re.search\<close>: the match at the leftmost position that has one.\<close>

fun re_search :: "rx \<Rightarrow> str \<Rightarrow> (str \<times> str \<times> caps) option" where
  "re_search r [] = None"
| "re_search r (x # xs) =
     (case first_match r (x # xs) of
        Some m \<Rightarrow> Some m
      | None \<Rightarrow> re_search r xs)"

text \<open>
  A replacement template is a sequence of literal text and group references (\<open>\1\<close>).
  \<open>re.sub\<close> raises \<open>re.error\<close> ("invalid group reference") when the template names a
  group that the pattern does not have, whether or not anything matches; a group that
  exists and took no part in a match expands to the empty string.
\<close>

datatype titem = TLit str | TGroup nat

datatype py_error =
    InvalidGroupReference nat
  | UnicodeEncodeError
  | UnicodeDecodeError
  | CalledProcessError

fun expand :: "titem list \<Rightarrow> caps \<Rightarrow> str" where
  "expand [] g = []"
| "expand (TLit s # t) g = s @ expand t g"
| "expand (TGroup n # t) g = (case group g n of None \<Rightarrow> [] | Some s \<Rightarrow> s) @ expand t g"

fun template_groups :: "titem list \<Rightarrow> nat list" where
  "template_groups [] = []"
| "template_groups (TLit s # t) = template_groups t"
| "template_groups (TGroup n # t) = n # template_groups t"

text \<open>
  The loop of \<open>re.sub\<close>: \<open>lim\<close> is the number of replacements still allowed, \<open>None\<close> for
  no limit (\<open>count=0\<close>).
\<close>

function sub_loop :: "rx \<Rightarrow> titem list \<Rightarrow> nat option \<Rightarrow> str \<Rightarrow> str" where
  "sub_loop r t lim xs =
     (if lim = Some 0 then xs
      else case first_match r xs of
        Some (m, ys, g) \<Rightarrow> expand t g @ sub_loop r t (map_option (\<lambda>k. k - 1) lim) ys
      | None \<Rightarrow> (case xs of [] \<Rightarrow> [] | x # xs' \<Rightarrow> x # sub_loop r t lim xs'))"
  by pat_completeness auto
termination
  by (relation "measure (\<lambda>(r, t, lim, xs). length xs)")
    (auto simp: first_match_def split: list.splits if_splits)

declare sub_loop.simps [simp del]

definition re_sub :: "rx \<Rightarrow> titem list \<Rightarrow> str \<Rightarrow> nat \<Rightarrow> py_error + str" where
  "re_sub r t xs count =
     (case filter (\<lambda>n. n \<notin> set (groups_of r)) (template_groups t) of
        n # _ \<Rightarrow> Inl (InvalidGroupReference n)
      | [] \<Rightarrow> Inr (sub_loop r t (if count = 0 then None else Some count) xs))"

text \<open>\<open>re.split\<close> with a pattern that has no group: the pieces between the matches.\<close>

function split_loop :: "rx \<Rightarrow> str \<Rightarrow> str \<Rightarrow> str list" where
  "split_loop r acc xs =
     (case first_match r xs of
        Some (m, ys, g) \<Rightarrow> rev acc # split_loop r [] ys
      | None \<Rightarrow> (case xs of [] \<Rightarrow> [rev acc] | x # xs' \<Rightarrow> split_loop r (x # acc) xs'))"
  by pat_completeness auto
termination
  by (relation "measure (\<lambda>(r, acc, xs). length xs)")
    (auto simp: first_match_def split: list.splits if_splits)

declare split_loop.simps [simp del]

definition re_split :: "rx \<Rightarrow> str \<Rightarrow> str list" where
  "re_split r xs = split_loop r [] xs"

text \<open>\<open>re.findall\<close> with a pattern that has no group: the matched texts, left to right.\<close>

function re_findall :: "rx \<Rightarrow> str \<Rightarrow> str list" where
  "re_findall r xs =
     (case first_match r xs of
        Some (m, ys, g) \<Rightarrow> m # re_findall r ys
      | None \<Rightarrow> (case xs of [] \<Rightarrow> [] | x # xs' \<Rightarrow> re_findall r xs'))"
  by pat_completeness auto
termination
  by (relation "measure (\<lambda>(r, xs). length xs)")
    (auto simp: first_match_def split: list.splits if_splits)

declare re_findall.simps [simp del]

section \<open>The extractor\<close>

subsection \<open>Alphabets and patterns\<close>

text \<open>
  The code points of the string \<open>vietnamese_chars\<close> of \<open>has_vietnamese_diacritic\<close>: 67
  precomposed lowercase letters between U+00E0 and U+1EF9, U+0111 among them.
\<close>

definition vietnamese_chars :: "nat list" where
  "vietnamese_chars =
    [224, 225, 7841, 7843, 227, 226, 7847, 7845, 7853, 7849, 7851, 259, 7857, 7855, 7863,
     7859, 7861, 232, 233, 7865, 7867, 7869, 234, 7873, 7871, 7879, 7875, 7877, 236, 237,
     7883, 7881, 297, 242, 243, 7885, 7887, 245, 244, 7891, 7889, 7897, 7893, 7895, 417,
     7901, 7899, 7907, 7903, 7905, 249, 250, 7909, 7911, 361, 432, 7915, 7913, 7921, 7917,
     7919, 7923, 253, 7925, 7927, 7929, 273]"

definition has_vietnamese_diacritic :: "str \<Rightarrow> bool" where
  "has_vietnamese_diacritic text = list_ex (\<lambda>char. char \<in> set vietnamese_chars) (lower text)"

text \<open>\<open>\{\{[^}]+\}\}\<close>\<close>

definition template_rx :: rx where
  "template_rx = Seq (lit ''{{'') (Seq (Plus (Atom (NoneOf [(125, 125)]))) (lit ''}}''))"

text \<open>\<open>\[\[(?:[^|\]]*\|)?([^\]]+)\]\]\<close>\<close>

definition link_rx :: rx where
  "link_rx =
     Seq (lit ''[['')
       (Seq (Opt (Seq (Star (Atom (NoneOf [(124, 124), (93, 93)]))) (Atom (Chr 124))))
         (Seq (Grp 1 (Plus (Atom (NoneOf [(93, 93)])))) (lit '']]'')))"

text \<open>\<open><ref[^>]*>.*?</ref>\<close>, with \<open>re.DOTALL\<close>\<close>

definition ref_rx :: rx where
  "ref_rx =
     Seq (lit ''<ref'')
       (Seq (Star (Atom (NoneOf [(62, 62)])))
         (Seq (Atom (Chr 62)) (Seq (Lazy (Atom AnyChar)) (lit ''</ref>''))))"

text \<open>\<open><[^>]+>\<close>\<close>

definition tag_rx :: rx where
  "tag_rx = Seq (Atom (Chr 60)) (Seq (Plus (Atom (NoneOf [(62, 62)]))) (Atom (Chr 62)))"

text \<open>\<open>http[s]?://\S+\<close>\<close>

definition url_rx :: rx where
  "url_rx =
     Seq (lit ''http'') (Seq (Opt (Atom (OneOf [(115, 115)])))
       (Seq (lit ''://'') (Plus (Atom NonSpace))))"

text \<open>
  \<open>\[\[(?:Category|Th\<dots> lo\<dots>i|File|T\<dots>p tin):([^\]]+)\]\]\<close>; the two Vietnamese keywords
  are spelled with U+1EC3, U+1EA1 and U+1EAD.
\<close>

definition category_rx :: rx where
  "category_rx =
     Seq (lit ''[['')
       (Seq (Alt (lit ''Category'')
              (Alt (lits (ustr ''Th'' @ [7875] @ ustr '' lo'' @ [7841] @ ustr ''i''))
                (Alt (lit ''File'') (lits (ustr ''T'' @ [7853] @ ustr ''p tin'')))))
         (Seq (Atom (Chr 58)) (Seq (Grp 1 (Plus (Atom (NoneOf [(93, 93)])))) (lit '']]''))))"

text \<open>\<open>[.!?;]\s+|\n+\<close>\<close>

definition sentence_pattern :: rx where
  "sentence_pattern =
     Alt (Seq (Atom (OneOf [(46, 46), (33, 33), (63, 63), (59, 59)])) (Plus (Atom Space)))
       (Plus (Atom (Chr 10)))"

text \<open>
  \<open>[a-zA-Z\<dots>]+\<close>: the ASCII letters, the 67 letters of \<open>vietnamese_chars\<close> and U+0110.
\<close>

definition word_chars :: "(nat \<times> nat) list" where
  "word_chars = [(97, 122), (65, 90)] @ map (\<lambda>c. (c, c)) vietnamese_chars @ [(272, 272)]"

definition word_pattern :: rx where
  "word_pattern = Plus (Atom (OneOf word_chars))"

text \<open>The value of the flag \<open>re.IGNORECASE\<close>.\<close>

definition IGNORECASE :: nat where
  "IGNORECASE = 2"

text \<open>
  A token, as the data model has it: at least two characters, each a lowercase letter of
  the word pattern (\<open>a\<close> to \<open>z\<close>, or one of \<open>vietnamese_chars\<close>).
\<close>

definition token_char :: "nat \<Rightarrow> bool" where
  "token_char c = (97 \<le> c \<and> c \<le> 122 \<or> c \<in> set vietnamese_chars)"

definition token :: "str \<Rightarrow> bool" where
  "token w = (2 \<le> length w \<and> list_all token_char w)"

subsection \<open>extract\_words\<close>

definition and_then :: "py_error + 'a \<Rightarrow> ('a \<Rightarrow> py_error + 'b) \<Rightarrow> py_error + 'b" where
  "and_then r f = (case r of Inl e \<Rightarrow> Inl e | Inr v \<Rightarrow> f v)"

text \<open>
  The six substitutions at the head of \<open>extract_words\<close>, in the order of the source. The
  last call is \<open>re.sub(pattern, "", text, re.IGNORECASE)\<close>: the fourth positional
  parameter of \<open>re.sub\<close> is \<open>count\<close>, so the flag arrives as a count.
\<close>

definition strip_markup :: "str \<Rightarrow> py_error + str" where
  "strip_markup text =
     and_then (re_sub template_rx [] text 0) (\<lambda>text.
     and_then (re_sub link_rx [TGroup 1] text 0) (\<lambda>text.
     and_then (re_sub ref_rx [] text 0) (\<lambda>text.
     and_then (re_sub tag_rx [] text 0) (\<lambda>text.
     and_then (re_sub url_rx [] text 0) (\<lambda>text.
     re_sub category_rx [] text IGNORECASE)))))"

text \<open>
  The body of the loop over the sentences. \<open>meaningful_words\<close> is a Python set; the model
  keeps it as a list without repetition, newest first.
\<close>

definition add_word :: "str list \<Rightarrow> str \<Rightarrow> str list" where
  "add_word meaningful_words word =
     (let word_lower = lower word
      in if length word_lower \<ge> 2 then List.insert word_lower meaningful_words
         else meaningful_words)"

definition add_sentence :: "str list \<Rightarrow> str \<Rightarrow> str list" where
  "add_sentence meaningful_words sentence =
     (if has_vietnamese_diacritic sentence
      then foldl add_word meaningful_words (re_findall word_pattern sentence)
      else meaningful_words)"

definition extract_words :: "str \<Rightarrow> py_error + str list" where
  "extract_words text =
     and_then (strip_markup text) (\<lambda>text.
       Inr (foldl add_sentence [] (re_split sentence_pattern text)))"

section \<open>Files\<close>

text \<open>
  The UTF-8 codec of text-mode files. Encoding refuses surrogates; decoding is strict
  (no overlong form, no surrogate, nothing above U+10FFFF).
\<close>

definition scalar :: "nat \<Rightarrow> bool" where
  "scalar c = (c < 1114112 \<and> \<not> (55296 \<le> c \<and> c \<le> 57343))"

definition utf8_char :: "nat \<Rightarrow> string" where
  "utf8_char c =
     (if c < 128 then [char_of c]
      else if c < 2048 then [char_of (192 + c div 64), char_of (128 + c mod 64)]
      else if c < 65536 then
        [char_of (224 + c div 4096), char_of (128 + c div 64 mod 64), char_of (128 + c mod 64)]
      else
        [char_of (240 + c div 262144), char_of (128 + c div 4096 mod 64),
         char_of (128 + c div 64 mod 64), char_of (128 + c mod 64)])"

definition utf8_encode :: "str \<Rightarrow> string option" where
  "utf8_encode s = (if list_all scalar s then Some (concat (map utf8_char s)) else None)"

definition cont :: "char \<Rightarrow> bool" where
  "cont b = (128 \<le> (of_char b :: nat) \<and> (of_char b :: nat) < 192)"

definition low6 :: "char \<Rightarrow> nat" where
  "low6 b = of_char b - 128"

fun utf8_decode :: "string \<Rightarrow> str option" where
  "utf8_decode [] = Some []"
| "utf8_decode (b # bs) =
     (let n = (of_char b :: nat)
      in if n < 128 then map_option (\<lambda>r. n # r) (utf8_decode bs)
         else if 194 \<le> n \<and> n < 224 then
           (case bs of
              b1 # r \<Rightarrow>
                if cont b1
                then map_option (\<lambda>r. ((n - 192) * 64 + low6 b1) # r) (utf8_decode r)
                else None
            | _ \<Rightarrow> None)
         else if 224 \<le> n \<and> n < 240 then
           (case bs of
              b1 # b2 # r \<Rightarrow>
                (let c = (n - 224) * 4096 + low6 b1 * 64 + low6 b2
                 in if cont b1 \<and> cont b2 \<and> 2048 \<le> c \<and> scalar c
                    then map_option (\<lambda>r. c # r) (utf8_decode r) else None)
            | _ \<Rightarrow> None)
         else if 240 \<le> n \<and> n < 245 then
           (case bs of
              b1 # b2 # b3 # r \<Rightarrow>
                (let c = (n - 240) * 262144 + low6 b1 * 4096 + low6 b2 * 64 + low6 b3
                 in if cont b1 \<and> cont b2 \<and> cont b3 \<and> 65536 \<le> c \<and> scalar c
                    then map_option (\<lambda>r. c # r) (utf8_decode r) else None)
            | _ \<Rightarrow> None)
         else None)"

text \<open>
  Reading a text file line by line. With the default \<open>newline=None\<close>, a carriage return,
  alone or before a line feed, ends a line as well and is handed over as a line feed; each
  line keeps its line feed.
\<close>

fun universal_newlines :: "str \<Rightarrow> str" where
  "universal_newlines [] = []"
| "universal_newlines [x] = [if x = 13 then 10 else x]"
| "universal_newlines (x # y # xs) =
     (if x = 13 \<and> y = 10 then 10 # universal_newlines xs
      else if x = 13 then 10 # universal_newlines (y # xs)
      else x # universal_newlines (y # xs))"

fun split_lines :: "str \<Rightarrow> str \<Rightarrow> str list" where
  "split_lines acc [] = (if acc = [] then [] else [rev acc])"
| "split_lines acc (x # xs) =
     (if x = 10 then rev (x # acc) # split_lines [] xs else split_lines (x # acc) xs)"

definition file_lines :: "str \<Rightarrow> str list" where
  "file_lines s = split_lines [] (universal_newlines s)"

text \<open>
  A file on disk is the list of its lines, as bytes, each without its final line feed.
  \<open>read_text\<close> is what iterating over the file opened with \<open>encoding="utf-8"\<close> yields,
  \<open>None\<close> when the bytes do not decode.
\<close>

definition read_text :: "string list \<Rightarrow> str list option" where
  "read_text ls =
     map_option (\<lambda>ts. concat (map (\<lambda>t. file_lines (t @ [10])) ts)) (those (map utf8_decode ls))"

section \<open>The parser\<close>

text \<open>
  The state of a run: the fields of the \<open>WikiExtractor\<close> object, the local variables of
  the loop of \<open>parse_dump_regex\<close>, and the two files the program writes, the temporary
  word file (\<open>self.temp_file\<close>) and the output file, each \<open>None\<close> while it does not
  exist.
\<close>

record extractor =
  in_page :: bool
  in_text :: bool
  current_text :: "str list"
  text_lines :: nat
  articles_processed :: nat
  articles_matched :: nat
  total_words_written :: nat
  temp_file :: "string list option"
  output_file :: "string list option"

text \<open>\<open>needle in line\<close>\<close>

fun contains :: "str \<Rightarrow> str \<Rightarrow> bool" where
  "contains needle [] = (needle = [])"
| "contains needle (x # xs) = (prefix needle (x # xs) \<or> contains needle xs)"

text \<open>\<open><text[^>]*>(.*)\<close> and \<open>(.*)</text>\<close>, both with \<open>re.DOTALL\<close>\<close>

definition text_open_rx :: rx where
  "text_open_rx =
     Seq (lit ''<text'')
       (Seq (Star (Atom (NoneOf [(62, 62)])))
         (Seq (Atom (Chr 62)) (Grp 1 (Star (Atom AnyChar)))))"

definition text_close_rx :: rx where
  "text_close_rx = Seq (Grp 1 (Star (Atom AnyChar))) (lit ''</text>'')"

text \<open>
  \<open>write_words_to_file\<close> opens the file for appending, which creates it, and writes one
  line per word.
\<close>

definition write_words_to_file :: "extractor \<Rightarrow> str list \<Rightarrow> py_error + extractor" where
  "write_words_to_file st words =
     (case those (map utf8_encode words) of
        None \<Rightarrow> Inl UnicodeEncodeError
      | Some ls \<Rightarrow>
          Inr (st\<lparr>temp_file := Some ((case temp_file st of None \<Rightarrow> [] | Some old \<Rightarrow> old) @ ls),
                   total_words_written := total_words_written st + length words\<rparr>))"

text \<open>
  \<open>current_text.append(text_match.group(1))\<close>. Group 1 takes part in every match of the
  two patterns above, so the case of \<open>None\<close> does not arise; it is kept as the empty text.
\<close>

definition append_group :: "extractor \<Rightarrow> caps \<Rightarrow> extractor" where
  "append_group st g =
     st\<lparr>current_text := current_text st @ [case group g 1 of None \<Rightarrow> [] | Some s \<Rightarrow> s]\<rparr>"

text \<open>The most lines one text field may have: the constant 10000 of the source.\<close>

definition max_text_lines :: nat where
  "max_text_lines = 10000"

text \<open>The branch of the loop for a line with \<open></page>\<close> inside a page.\<close>

definition end_page :: "extractor \<Rightarrow> py_error + extractor" where
  "end_page st =
     (if current_text st \<noteq> [] then
        and_then (extract_words (concat (current_text st))) (\<lambda>words.
        and_then
          (if words \<noteq> [] then
             write_words_to_file
               (st\<lparr>articles_processed := articles_processed st + 1,
                    articles_matched := articles_matched st + 1\<rparr>) words
           else Inr (st\<lparr>articles_processed := articles_processed st + 1\<rparr>)) (\<lambda>st.
        Inr (st\<lparr>current_text := [], text_lines := 0, in_page := False\<rparr>)))
      else Inr (st\<lparr>in_page := False\<rparr>))"

text \<open>The branch for a line inside a page that has neither page marker.\<close>

definition page_line :: "nat \<Rightarrow> extractor \<Rightarrow> str \<Rightarrow> extractor" where
  "page_line cap st line =
     (if contains (ustr ''<text'') line then
        (case re_search text_open_rx line of
           Some (m, ys, g) \<Rightarrow>
             (append_group (st\<lparr>in_text := True\<rparr>) g)\<lparr>text_lines := text_lines st + 1\<rparr>
         | None \<Rightarrow> st\<lparr>in_text := True\<rparr>)
      else if contains (ustr ''</text>'') line then
        (case re_search text_close_rx line of
           Some (m, ys, g) \<Rightarrow> (append_group st g)\<lparr>in_text := False\<rparr>
         | None \<Rightarrow> st\<lparr>in_text := False\<rparr>)
      else if in_text st then
        (let st = st\<lparr>current_text := current_text st @ [line], text_lines := text_lines st + 1\<rparr>
         in if text_lines st > cap then st\<lparr>in_text := False, current_text := []\<rparr> else st)
      else st)"

text \<open>One turn of the loop \<open>for line in file_handle\<close>.\<close>

definition parse_line :: "nat \<Rightarrow> extractor \<Rightarrow> str \<Rightarrow> py_error + extractor" where
  "parse_line cap st line =
     (if contains (ustr ''<page>'') line then
        Inr (st\<lparr>in_page := True, current_text := [], text_lines := 0\<rparr>)
      else if contains (ustr ''</page>'') line \<and> in_page st then end_page st
      else if in_page st then Inr (page_line cap st line)
      else Inr st)"

fun parse_lines :: "nat \<Rightarrow> extractor \<Rightarrow> str list \<Rightarrow> py_error + extractor" where
  "parse_lines cap st [] = Inr st"
| "parse_lines cap st (line # rest) =
     and_then (parse_line cap st line) (\<lambda>st. parse_lines cap st rest)"

text \<open>
  \<open>parse_dump_regex\<close> on the decoded text of the dump: the temporary file is removed, the
  loop variables are initialised and the lines are read in turn.
\<close>

definition parse_dump_regex :: "extractor \<Rightarrow> str \<Rightarrow> py_error + extractor" where
  "parse_dump_regex self dump =
     parse_lines max_text_lines
       (self\<lparr>temp_file := None, articles_processed := 0, articles_matched := 0,
             in_page := False, in_text := False, current_text := [], text_lines := 0\<rparr>)
       (file_lines dump)"

section \<open>The deduplicator\<close>

text \<open>
  What the two runs of the external \<open>sort\<close> do is given by the environment: whether each
  exits with status 0. In the C locale \<open>sort\<close> orders the lines as byte strings and
  \<open>sort -u\<close> keeps the first line of every run of equal ones.
\<close>

record sort_env =
  sort_u_ok :: bool
  sort_ok :: bool

definition sort_u :: "string list \<Rightarrow> string list" where
  "sort_u ls = remdups_adj (sort ls)"

text \<open>The streaming pass of the fallback: \<open>prev_word\<close> starts as \<open>None\<close>.\<close>

fun dedup_stream :: "str option \<Rightarrow> str list \<Rightarrow> str list" where
  "dedup_stream prev_word [] = []"
| "dedup_stream prev_word (line # rest) =
     (let word = strip line
      in if word \<noteq> [] \<and> Some word \<noteq> prev_word
         then word # dedup_stream (Some word) rest
         else dedup_stream prev_word rest)"

definition save_primary :: "extractor \<Rightarrow> string list \<Rightarrow> py_error + extractor" where
  "save_primary st spool =
     (let sorted_file = sort_u spool
      in case read_text sorted_file of
           None \<Rightarrow> Inl UnicodeDecodeError
         | Some counted \<Rightarrow> Inr (st\<lparr>output_file := Some sorted_file, temp_file := None\<rparr>))"

definition save_fallback :: "extractor \<Rightarrow> string list \<Rightarrow> py_error + extractor" where
  "save_fallback st spool =
     (let sorted_file = sort spool
      in case read_text sorted_file of
           None \<Rightarrow> Inl UnicodeDecodeError
         | Some infile \<Rightarrow>
             (case those (map utf8_encode (dedup_stream None infile)) of
                None \<Rightarrow> Inl UnicodeEncodeError
              | Some outfile \<Rightarrow> Inr (st\<lparr>output_file := Some outfile, temp_file := None\<rparr>)))"

definition save_words :: "sort_env \<Rightarrow> extractor \<Rightarrow> py_error + extractor" where
  "save_words env st =
     (case temp_file st of
        None \<Rightarrow> Inr st
      | Some spool \<Rightarrow>
          if sort_u_ok env then save_primary st spool
          else if sort_ok env then save_fallback st spool
          else Inl CalledProcessError)"

text \<open>
  \<open>main\<close>: a fresh extractor (\<open>__init__\<close>), the parse, the deduplication. \<open>files\<close> gives
  the two files as they are found.
\<close>

definition init :: "string list option \<Rightarrow> string list option \<Rightarrow> extractor" where
  "init tmp out =
     \<lparr>in_page = False, in_text = False, current_text = [], text_lines = 0,
      articles_processed = 0, articles_matched = 0, total_words_written = 0,
      temp_file = tmp, output_file = out\<rparr>"

definition main :: "sort_env \<Rightarrow> extractor \<Rightarrow> str \<Rightarrow> py_error + extractor" where
  "main env self dump = and_then (parse_dump_regex self dump) (save_words env)"

section \<open>Lemmas\<close>

subsection \<open>Unfolding the definitions on concrete inputs\<close>

lemmas rx_defs = template_rx_def link_rx_def ref_rx_def tag_rx_def url_rx_def category_rx_def
  sentence_pattern_def word_pattern_def word_chars_def text_open_rx_def text_close_rx_def
  lit_def lits_def Plus_def ustr_def

lemmas str_defs = in_ranges_def isspace_def whitespace_def lower_def lower_cp_def
  vietnamese_chars_def has_vietnamese_diacritic_def strip_def

lemmas loop_simps = rx_match.simps(5,6) sub_loop.simps split_loop.simps re_findall.simps

lemmas extract_defs = extract_words_def strip_markup_def and_then_def re_sub_def re_split_def
  add_sentence_def add_word_def IGNORECASE_def first_match_def group_def

lemmas file_defs = utf8_encode_def utf8_char_def scalar_def cont_def low6_def file_lines_def
  read_text_def

lemmas parse_defs = parse_dump_regex_def parse_line_def page_line_def end_page_def
  append_group_def write_words_to_file_def max_text_lines_def init_def main_def

lemmas save_defs = save_words_def save_primary_def save_fallback_def sort_u_def

lemmas char_defs = char_of_def bit_iff_odd less_char_def less_eq_char_def

subsection \<open>The matcher\<close>

text \<open>Every way to match leaves a suffix of the subject.\<close>

lemma rx_match_suffix:
  "(ys, h) \<in> set (rx_match r xs g) \<Longrightarrow> suffix ys xs"
proof (induction r xs g arbitrary: ys h rule: rx_match.induct)
  case (1 xs g)
  then show ?case by simp
next
  case (2 c xs g)
  then show ?case by (auto split: list.splits if_splits simp: suffix_Cons)
next
  case (3 a b xs g)
  from "3.prems" obtain zs k where a: "(zs, k) \<in> set (rx_match a xs g)"
    and b: "(ys, h) \<in> set (rx_match b zs k)" by auto
  from "3.IH"(1)[OF a] "3.IH"(2)[OF a refl b] show ?case
    using suffix_order.trans by blast
next
  case (4 a b xs g)
  then show ?case by auto
next
  case (5 a xs g)
  from "5.prems" consider "(ys, h) = (xs, g)"
    | zs k where "(zs, k) \<in> set (rx_match a xs g)" "length zs < length xs"
        "(ys, h) \<in> set (rx_match (Star a) zs k)"
    by (subst (asm) rx_match.simps) (auto split: if_splits)
  then show ?case
  proof cases
    case 1
    then show ?thesis by simp
  next
    case 2
    from "5.IH"(1)[OF 2(1)] "5.IH"(2)[OF 2(1) refl 2(2) 2(3)] show ?thesis
      using suffix_order.trans by blast
  qed
next
  case (6 a xs g)
  from "6.prems" consider "(ys, h) = (xs, g)"
    | zs k where "(zs, k) \<in> set (rx_match a xs g)" "length zs < length xs"
        "(ys, h) \<in> set (rx_match (Lazy a) zs k)"
    by (subst (asm) rx_match.simps) (auto split: if_splits)
  then show ?case
  proof cases
    case 1
    then show ?thesis by simp
  next
    case 2
    from "6.IH"(1)[OF 2(1)] "6.IH"(2)[OF 2(1) refl 2(2) 2(3)] show ?thesis
      using suffix_order.trans by blast
  qed
next
  case (7 a xs g)
  then show ?case by auto
next
  case (8 n a xs g)
  then show ?case by auto
qed

text \<open>A repetition of a character class consumes characters of the class only.\<close>

lemma star_atom_prefix:
  "(ys, h) \<in> set (rx_match (Star (Atom c)) xs g) \<Longrightarrow>
     \<exists>m. xs = m @ ys \<and> (\<forall>x\<in>set m. in_cset c x)"
proof (induction xs arbitrary: g)
  case Nil
  then show ?case by (subst (asm) rx_match.simps) simp
next
  case (Cons x xs)
  from Cons.prems consider "ys = x # xs"
    | "in_cset c x" "(ys, h) \<in> set (rx_match (Star (Atom c)) xs g)"
    by (subst (asm) rx_match.simps) (auto split: if_splits)
  then show ?case
  proof cases
    case 1
    then show ?thesis by simp
  next
    case 2
    from Cons.IH[OF 2(2)] obtain m where "xs = m @ ys" "\<forall>x\<in>set m. in_cset c x" by blast
    with 2(1) have "x # xs = (x # m) @ ys \<and> (\<forall>y\<in>set (x # m). in_cset c y)" by simp
    then show ?thesis by blast
  qed
qed

lemma plus_atom_prefix:
  assumes "(ys, h) \<in> set (rx_match (Plus (Atom c)) xs g)"
  shows "\<exists>m. xs = m @ ys \<and> m \<noteq> [] \<and> (\<forall>x\<in>set m. in_cset c x)"
proof -
  from assms obtain x xs' where xs: "xs = x # xs'" and x: "in_cset c x"
    and st: "(ys, h) \<in> set (rx_match (Star (Atom c)) xs' g)"
    by (auto simp: Plus_def split: list.splits if_splits)
  from star_atom_prefix[OF st] obtain m where "xs' = m @ ys" "\<forall>x\<in>set m. in_cset c x" by blast
  with xs x have "xs = (x # m) @ ys \<and> x # m \<noteq> [] \<and> (\<forall>y\<in>set (x # m). in_cset c y)" by simp
  then show ?thesis by blast
qed

lemma first_match_rest:
  assumes "first_match r xs = Some (m, ys, g)"
  shows "(ys, g) \<in> set (rx_match r xs []) \<and> xs = m @ ys \<and> m \<noteq> []"
proof -
  from assms have in_set: "(ys, g) \<in> set (rx_match r xs [])" and len: "length ys < length xs"
    and m: "m = take (length xs - length ys) xs"
    by (auto simp: first_match_def split: list.splits if_splits)
  from rx_match_suffix[OF in_set] obtain p where p: "xs = p @ ys" by (auto simp: suffix_def)
  with m have "m = p" by simp
  with p len in_set show ?thesis by auto
qed

lemma findall_word_chars:
  "w \<in> set (re_findall word_pattern xs) \<Longrightarrow> w \<noteq> [] \<and> (\<forall>x\<in>set w. in_ranges word_chars x)"
proof (induction word_pattern xs rule: re_findall.induct)
  case (1 xs)
  show ?case
  proof (cases "first_match word_pattern xs")
    case None
    with 1 show ?thesis
      by (subst (asm) (3) re_findall.simps) (auto split: list.splits)
  next
    case (Some t)
    then obtain m ys g where t: "first_match word_pattern xs = Some (m, ys, g)"
      by (cases t) auto
    from first_match_rest[OF t] have in_set: "(ys, g) \<in> set (rx_match word_pattern xs [])"
      and xs: "xs = m @ ys" and ne: "m \<noteq> []" by auto
    from in_set plus_atom_prefix[of ys g "OneOf word_chars" xs "[]"]
    obtain m' where "xs = m' @ ys" "\<forall>x\<in>set m'. in_cset (OneOf word_chars) x"
      by (auto simp: word_pattern_def)
    with xs have mc: "\<forall>x\<in>set m. in_ranges word_chars x" by simp
    from "1.prems" t have "w = m \<or> w \<in> set (re_findall word_pattern ys)"
      by (subst (asm) re_findall.simps) auto
    with "1.hyps"(2)[OF t refl refl] ne mc show ?thesis by auto
  qed
qed

lemma lower_word_char:
  "in_ranges word_chars c \<Longrightarrow> \<exists>d. lower_cp c = [d] \<and> token_char d"
  unfolding in_ranges_def word_chars_def vietnamese_chars_def token_char_def lower_cp_def
  by (elim disjE conjE | simp)+

text \<open>Every captured group is a piece of the subject.\<close>

lemma sublist_of_suffix: "sublist s zs \<Longrightarrow> suffix zs xs \<Longrightarrow> sublist s xs"
proof -
  assume "sublist s zs" "suffix zs xs"
  then obtain p q r where "zs = p @ s @ q" "xs = r @ zs" by (auto simp: sublist_def suffix_def)
  then have "xs = (r @ p) @ s @ q" by simp
  then show ?thesis unfolding sublist_def by blast
qed

lemma rx_match_caps:
  "(ys, h) \<in> set (rx_match r xs g) \<Longrightarrow> (n, s) \<in> set h \<Longrightarrow> (n, s) \<in> set g \<or> sublist s xs"
proof (induction r xs g arbitrary: ys h rule: rx_match.induct)
  case (1 xs g)
  then show ?case by simp
next
  case (2 c xs g)
  then show ?case by (auto split: list.splits if_splits)
next
  case (3 a b xs g)
  from "3.prems" obtain zs k where a: "(zs, k) \<in> set (rx_match a xs g)"
    and b: "(ys, h) \<in> set (rx_match b zs k)" by auto
  from "3.IH"(2)[OF a refl b "3.prems"(2)] have "(n, s) \<in> set k \<or> sublist s zs" .
  moreover have "(n, s) \<in> set k \<Longrightarrow> (n, s) \<in> set g \<or> sublist s xs"
    using "3.IH"(1)[OF a] by simp
  moreover have "sublist s zs \<Longrightarrow> sublist s xs"
    using rx_match_suffix[OF a] by (rule sublist_of_suffix[rotated])
  ultimately show ?case by blast
next
  case (4 a b xs g)
  then show ?case by auto
next
  case (5 a xs g)
  from "5.prems"(1) consider "(ys, h) = (xs, g)"
    | zs k where "(zs, k) \<in> set (rx_match a xs g)" "length zs < length xs"
        "(ys, h) \<in> set (rx_match (Star a) zs k)"
    by (subst (asm) rx_match.simps) (auto split: if_splits)
  then show ?case
  proof cases
    case 1
    with "5.prems"(2) show ?thesis by simp
  next
    case 2
    from "5.IH"(2)[OF 2(1) refl 2(2) 2(3) "5.prems"(2)] have "(n, s) \<in> set k \<or> sublist s zs" .
    moreover have "(n, s) \<in> set k \<Longrightarrow> (n, s) \<in> set g \<or> sublist s xs"
      using "5.IH"(1)[OF 2(1)] by simp
    moreover have "sublist s zs \<Longrightarrow> sublist s xs"
      using rx_match_suffix[OF 2(1)] by (rule sublist_of_suffix[rotated])
    ultimately show ?thesis by blast
  qed
next
  case (6 a xs g)
  from "6.prems"(1) consider "(ys, h) = (xs, g)"
    | zs k where "(zs, k) \<in> set (rx_match a xs g)" "length zs < length xs"
        "(ys, h) \<in> set (rx_match (Lazy a) zs k)"
    by (subst (asm) rx_match.simps) (auto split: if_splits)
  then show ?case
  proof cases
    case 1
    with "6.prems"(2) show ?thesis by simp
  next
    case 2
    from "6.IH"(2)[OF 2(1) refl 2(2) 2(3) "6.prems"(2)] have "(n, s) \<in> set k \<or> sublist s zs" .
    moreover have "(n, s) \<in> set k \<Longrightarrow> (n, s) \<in> set g \<or> sublist s xs"
      using "6.IH"(1)[OF 2(1)] by simp
    moreover have "sublist s zs \<Longrightarrow> sublist s xs"
      using rx_match_suffix[OF 2(1)] by (rule sublist_of_suffix[rotated])
    ultimately show ?thesis by blast
  qed
next
  case (7 a xs g)
  then show ?case by auto
next
  case (8 m a xs g)
  from "8.prems"(1) obtain h' where h': "(ys, h') \<in> set (rx_match a xs g)"
    and h: "h = (m, take (length xs - length ys) xs) # h'" by auto
  from "8.prems"(2) h consider "s = take (length xs - length ys) xs" | "(n, s) \<in> set h'" by auto
  then show ?case
  proof cases
    case 1
    then have "prefix s xs" by (simp add: take_is_prefix)
    then show ?thesis by (simp add: prefix_imp_sublist)
  next
    case 2
    from "8.IH"[OF h' 2] show ?thesis .
  qed
qed

lemma re_search_caps:
  "re_search r xs = Some (m, ys, g) \<Longrightarrow> (n, s) \<in> set g \<Longrightarrow> sublist s xs"
proof (induction xs)
  case Nil
  then show ?case by simp
next
  case (Cons x xs)
  show ?case
  proof (cases "first_match r (x # xs)")
    case None
    with Cons.prems have "re_search r xs = Some (m, ys, g)" by simp
    from Cons.IH[OF this Cons.prems(2)] show ?thesis by (simp add: sublist_Cons_right)
  next
    case (Some t)
    with Cons.prems have "first_match r (x # xs) = Some (m, ys, g)" by simp
    from first_match_rest[OF this] have "(ys, g) \<in> set (rx_match r (x # xs) [])" by blast
    from rx_match_caps[OF this Cons.prems(2)] show ?thesis by simp
  qed
qed

subsection \<open>The codec\<close>

text \<open>Decoding undoes encoding, one scalar value at a time.\<close>

lemma base64_3: "c div 4096 * 4096 + c div 64 mod 64 * 64 + c mod 64 = (c::nat)"
proof -
  define q where "q = c div 64"
  define r where "r = q div 64"
  define s where "s = q mod 64"
  define t where "t = c mod 64"
  have 1: "c = q * 64 + t" unfolding q_def t_def by simp
  have 2: "q = r * 64 + s" unfolding r_def s_def by simp
  have "c div (64 * 64) = c div 64 div 64" by (rule div_mult2_eq)
  then have 3: "c div 4096 = r" unfolding r_def q_def by simp
  have 4: "(r * 64 + s) * 64 + t = r * 4096 + s * 64 + t" by (simp add: add_mult_distrib)
  show ?thesis unfolding 3 s_def[symmetric] q_def[symmetric] t_def[symmetric]
    using 1 2 4 by metis
qed

lemma base64_4:
  "c div 262144 * 262144 + c div 4096 mod 64 * 4096 + c div 64 mod 64 * 64 + c mod 64 = (c::nat)"
proof -
  define p where "p = c div 4096"
  define u where "u = p div 64"
  define v where "v = p mod 64"
  define w where "w = c div 64 mod 64 * 64 + c mod 64"
  have "c div (4096 * 64) = c div 4096 div 64" by (rule div_mult2_eq)
  then have a: "c div 262144 = u" unfolding u_def p_def by simp
  have b: "p = u * 64 + v" unfolding u_def v_def by simp
  have c: "p * 4096 + w = c" unfolding p_def w_def using base64_3[of c] by simp
  have d: "(u * 64 + v) * 4096 + w = u * 262144 + v * 4096 + w" by (simp add: add_mult_distrib)
  have "u * 262144 + v * 4096 + w = c" using b c d by metis
  then show ?thesis unfolding a v_def p_def w_def by simp
qed

lemma of_char_small: "n < 256 \<Longrightarrow> (of_char (char_of (n::nat)) :: nat) = n"
  by simp

lemma decode_char1:
  assumes "c < 128"
  shows "utf8_decode (utf8_char c @ bs) = map_option (\<lambda>r. c # r) (utf8_decode bs)"
  using assms by (simp add: utf8_char_def)

lemma decode_char2:
  assumes "128 \<le> c" "c < 2048"
  shows "utf8_decode (utf8_char c @ bs) = map_option (\<lambda>r. c # r) (utf8_decode bs)"
proof -
  from assms have enc: "utf8_char c = [char_of (192 + c div 64), char_of (128 + c mod 64)]"
    by (simp add: utf8_char_def)
  from assms have a: "c div 64 < 32" "2 \<le> c div 64" by auto
  from a have n0: "(192 + c div 64) mod 256 = 192 + c div 64" by simp
  have n1: "(128 + c mod 64) mod 256 = 128 + c mod 64" by simp
  have b: "c div 64 * 64 + c mod 64 = c" by simp
  have "utf8_decode (char_of (192 + c div 64) # char_of (128 + c mod 64) # bs)
      = map_option (\<lambda>r. c # r) (utf8_decode bs)"
    by (subst utf8_decode.simps) (simp add: Let_def n0 n1 cont_def low6_def a b)
  then show ?thesis unfolding enc by simp
qed

lemma decode_char3:
  assumes "2048 \<le> c" "c < 65536" "scalar c"
  shows "utf8_decode (utf8_char c @ bs) = map_option (\<lambda>r. c # r) (utf8_decode bs)"
proof -
  from assms have enc: "utf8_char c =
      [char_of (224 + c div 4096), char_of (128 + c div 64 mod 64), char_of (128 + c mod 64)]"
    by (simp add: utf8_char_def)
  from assms have a: "c div 4096 < 16" by auto
  from a have n0: "(224 + c div 4096) mod 256 = 224 + c div 4096" by simp
  have n1: "(128 + c div 64 mod 64) mod 256 = 128 + c div 64 mod 64" by simp
  have n2: "(128 + c mod 64) mod 256 = 128 + c mod 64" by simp
  note b = base64_3[of c]
  have "utf8_decode (char_of (224 + c div 4096) # char_of (128 + c div 64 mod 64)
          # char_of (128 + c mod 64) # bs)
      = map_option (\<lambda>r. c # r) (utf8_decode bs)"
    by (subst utf8_decode.simps) (simp add: Let_def n0 n1 n2 cont_def low6_def a b assms)
  then show ?thesis unfolding enc by simp
qed

lemma decode_char4:
  assumes "65536 \<le> c" "scalar c"
  shows "utf8_decode (utf8_char c @ bs) = map_option (\<lambda>r. c # r) (utf8_decode bs)"
proof -
  from assms have enc: "utf8_char c =
      [char_of (240 + c div 262144), char_of (128 + c div 4096 mod 64),
       char_of (128 + c div 64 mod 64), char_of (128 + c mod 64)]"
    by (simp add: utf8_char_def)
  from assms have a: "c div 262144 < 5" by (auto simp: scalar_def)
  from a have n0: "(240 + c div 262144) mod 256 = 240 + c div 262144" by simp
  have n1: "(128 + c div 4096 mod 64) mod 256 = 128 + c div 4096 mod 64" by simp
  have n2: "(128 + c div 64 mod 64) mod 256 = 128 + c div 64 mod 64" by simp
  have n3: "(128 + c mod 64) mod 256 = 128 + c mod 64" by simp
  note b = base64_4[of c]
  have "utf8_decode (char_of (240 + c div 262144) # char_of (128 + c div 4096 mod 64)
          # char_of (128 + c div 64 mod 64) # char_of (128 + c mod 64) # bs)
      = map_option (\<lambda>r. c # r) (utf8_decode bs)"
    by (subst utf8_decode.simps) (simp add: Let_def n0 n1 n2 n3 cont_def low6_def a b assms)
  then show ?thesis unfolding enc by simp
qed

lemma decode_char:
  assumes "scalar c"
  shows "utf8_decode (utf8_char c @ bs) = map_option (\<lambda>r. c # r) (utf8_decode bs)"
proof -
  consider "c < 128" | "128 \<le> c" "c < 2048" | "2048 \<le> c" "c < 65536" | "65536 \<le> c"
    by (cases "c < 128"; cases "c < 2048"; cases "c < 65536") auto
  then show ?thesis
    using assms by cases (auto intro: decode_char1 decode_char2 decode_char3 decode_char4)
qed

subsection \<open>The words of a text\<close>

text \<open>Whatever \<open>extract_words\<close> returns is a token.\<close>

lemma lower_word:
  "\<forall>x\<in>set w. in_ranges word_chars x \<Longrightarrow>
     length (lower w) = length w \<and> list_all token_char (lower w)"
proof (induction w)
  case Nil
  then show ?case by (simp add: lower_def)
next
  case (Cons c w)
  from Cons.prems have "in_ranges word_chars c" by simp
  from lower_word_char[OF this] obtain d where d: "lower_cp c = [d]" "token_char d"
    by blast
  from Cons have "length (lower w) = length w \<and> list_all token_char (lower w)" by simp
  moreover have "lower (c # w) = d # lower w" using d by (simp add: lower_def)
  ultimately show ?case using d by simp
qed

lemma add_word_tokens:
  assumes "\<forall>v\<in>set acc. token v" "\<forall>x\<in>set w. in_ranges word_chars x"
  shows "\<forall>v\<in>set (add_word acc w). token v"
proof (cases "2 \<le> length (lower w)")
  case True
  with lower_word[OF assms(2)] have "token (lower w)" by (simp add: token_def)
  moreover from True have "add_word acc w = List.insert (lower w) acc"
    by (simp add: add_word_def Let_def)
  ultimately show ?thesis using assms(1) by simp
next
  case False
  then have "add_word acc w = acc" by (simp add: add_word_def Let_def)
  with assms(1) show ?thesis by simp
qed

lemma foldl_add_word_tokens:
  "\<forall>v\<in>set acc. token v \<Longrightarrow> \<forall>w\<in>set ws. \<forall>x\<in>set w. in_ranges word_chars x \<Longrightarrow>
     \<forall>v\<in>set (foldl add_word acc ws). token v"
proof (induction ws arbitrary: acc)
  case Nil
  then show ?case by simp
next
  case (Cons w ws)
  from Cons.prems have "\<forall>v\<in>set (add_word acc w). token v"
    by (intro add_word_tokens) simp_all
  moreover from Cons.prems have "\<forall>w\<in>set ws. \<forall>x\<in>set w. in_ranges word_chars x" by simp
  ultimately have "\<forall>v\<in>set (foldl add_word (add_word acc w) ws). token v"
    by (rule Cons.IH)
  then show ?case by simp
qed

lemma add_sentence_tokens:
  assumes "\<forall>v\<in>set acc. token v"
  shows "\<forall>v\<in>set (add_sentence acc s). token v"
proof (cases "has_vietnamese_diacritic s")
  case True
  have "\<forall>w\<in>set (re_findall word_pattern s). \<forall>x\<in>set w. in_ranges word_chars x"
    using findall_word_chars by blast
  from foldl_add_word_tokens[OF assms this] True show ?thesis
    by (simp add: add_sentence_def)
next
  case False
  with assms show ?thesis by (simp add: add_sentence_def)
qed

lemma foldl_add_sentence_tokens:
  "\<forall>v\<in>set acc. token v \<Longrightarrow> \<forall>v\<in>set (foldl add_sentence acc ss). token v"
proof (induction ss arbitrary: acc)
  case Nil
  then show ?case by simp
next
  case (Cons s ss)
  from Cons.IH[OF add_sentence_tokens[OF Cons.prems]] show ?case by simp
qed

lemma extract_words_tokens:
  assumes "extract_words text = Inr words"
  shows "\<forall>w\<in>set words. token w"
proof -
  from assms obtain plain where
    "words = foldl add_sentence [] (re_split sentence_pattern plain)"
    by (auto simp: extract_words_def and_then_def split: sum.splits)
  then show ?thesis using foldl_add_sentence_tokens[of "[]"] by simp
qed

lemma token_char_list: "token_char c \<longleftrightarrow> c \<in> set ([97..<123] @ vietnamese_chars)"
  unfolding token_char_def set_append set_upt by auto

lemma token_chars_all:
  "list_all (\<lambda>c. in_ranges word_chars c \<and> lower_cp c = [c] \<and> \<not> isspace c
      \<and> \<not> (48 \<le> c \<and> c \<le> 57) \<and> scalar c) ([97..<123] @ vietnamese_chars)"
  by (simp add: in_ranges_def word_chars_def vietnamese_chars_def lower_cp_def isspace_def
      whitespace_def scalar_def upt_rec_numeral)

lemma token_char_facts:
  "token_char c \<Longrightarrow>
     in_ranges word_chars c \<and> lower_cp c = [c] \<and> \<not> isspace c \<and> \<not> (48 \<le> c \<and> c \<le> 57) \<and> scalar c"
  using token_chars_all unfolding token_char_list list_all_iff by blast

text \<open>
  The words of a text are those of its spans that pass the gate: each contributes the
  lowercased matches of the word pattern that have two characters or more.
\<close>

lemma gate_iff:
  "has_vietnamese_diacritic s \<longleftrightarrow> (\<exists>c\<in>set (lower s). c \<in> set vietnamese_chars)"
  by (simp add: has_vietnamese_diacritic_def list_ex_iff)

lemma set_add_word:
  "set (add_word acc w) = set acc \<union> (if 2 \<le> length (lower w) then {lower w} else {})"
  by (simp add: add_word_def Let_def)

lemma set_foldl_add_word:
  "set (foldl add_word acc ws) = set acc \<union> {lower w |w. w \<in> set ws \<and> 2 \<le> length (lower w)}"
proof (induction ws arbitrary: acc)
  case Nil
  then show ?case by simp
next
  case (Cons w ws)
  have "set (foldl add_word (add_word acc w) ws)
      = set (add_word acc w) \<union> {lower w |w. w \<in> set ws \<and> 2 \<le> length (lower w)}"
    by (rule Cons.IH)
  then show ?case unfolding set_add_word by auto
qed

lemma set_add_sentence:
  "set (add_sentence acc s)
     = set acc \<union>
       (if has_vietnamese_diacritic s
        then {lower w |w. w \<in> set (re_findall word_pattern s) \<and> 2 \<le> length (lower w)}
        else {})"
  by (simp add: add_sentence_def set_foldl_add_word)

lemma set_foldl_add_sentence:
  "set (foldl add_sentence acc ss)
     = set acc \<union>
       (\<Union>s\<in>{s \<in> set ss. has_vietnamese_diacritic s}.
          {lower w |w. w \<in> set (re_findall word_pattern s) \<and> 2 \<le> length (lower w)})"
proof (induction ss arbitrary: acc)
  case Nil
  then show ?case by simp
next
  case (Cons s ss)
  have "set (foldl add_sentence (add_sentence acc s) ss)
      = set (add_sentence acc s) \<union>
        (\<Union>s\<in>{s \<in> set ss. has_vietnamese_diacritic s}.
           {lower w |w. w \<in> set (re_findall word_pattern s) \<and> 2 \<le> length (lower w)})"
    by (rule Cons.IH)
  then show ?case unfolding set_add_sentence by auto
qed

lemma extract_words_set:
  assumes "strip_markup text = Inr plain"
  shows "\<exists>words. extract_words text = Inr words \<and>
     set words =
       (\<Union>s\<in>{s \<in> set (re_split sentence_pattern plain). has_vietnamese_diacritic s}.
          {lower w |w. w \<in> set (re_findall word_pattern s) \<and> 2 \<le> length (lower w)})"
  using assms by (simp add: extract_words_def and_then_def set_foldl_add_sentence)

subsection \<open>The parser\<close>

text \<open>
  Whatever a turn of the loop adds to \<open>current_text\<close> is a piece of the line it reads.
\<close>

lemma append_group_text:
  assumes "re_search r line = Some (m, ys, g)" "t \<in> set (current_text (append_group st g))"
  shows "t \<in> set (current_text st) \<or> sublist t line"
proof (cases "group g 1")
  case None
  with assms(2) show ?thesis by (auto simp: append_group_def)
next
  case (Some s)
  then have "(1, s) \<in> set g" by (simp add: group_def map_of_SomeD)
  from re_search_caps[OF assms(1) this] have "sublist s line" .
  with assms(2) Some show ?thesis by (auto simp: append_group_def)
qed

lemma page_line_text:
  assumes "t \<in> set (current_text (page_line cap st line))"
  shows "t \<in> set (current_text st) \<or> sublist t line"
proof -
  consider (open_tag) "contains (ustr ''<text'') line"
    | (close_tag) "\<not> contains (ustr ''<text'') line" "contains (ustr ''</text>'') line"
    | (plain) "\<not> contains (ustr ''<text'') line" "\<not> contains (ustr ''</text>'') line"
    by blast
  then show ?thesis
  proof cases
    case open_tag
    show ?thesis
    proof (cases "re_search text_open_rx line")
      case None
      with open_tag assms show ?thesis by (simp add: page_line_def)
    next
      case (Some r)
      then obtain m ys g where r: "re_search text_open_rx line = Some (m, ys, g)"
        by (cases r) auto
      with open_tag assms
      have "t \<in> set (current_text (append_group (st\<lparr>in_text := True\<rparr>) g))"
        by (simp add: page_line_def)
      from append_group_text[OF r this] show ?thesis by simp
    qed
  next
    case close_tag
    show ?thesis
    proof (cases "re_search text_close_rx line")
      case None
      with close_tag assms show ?thesis by (simp add: page_line_def)
    next
      case (Some r)
      then obtain m ys g where r: "re_search text_close_rx line = Some (m, ys, g)"
        by (cases r) auto
      with close_tag assms have "t \<in> set (current_text (append_group st g))"
        by (simp add: page_line_def)
      from append_group_text[OF r this] show ?thesis .
    qed
  next
    case plain
    with assms show ?thesis
      by (auto simp: page_line_def Let_def split: if_splits)
  qed
qed

lemma write_words_fields:
  assumes "write_words_to_file st words = Inr st'"
  shows "current_text st' = current_text st \<and> text_lines st' = text_lines st
    \<and> in_page st' = in_page st \<and> in_text st' = in_text st"
  using assms by (auto simp: write_words_to_file_def split: option.splits)

lemma end_page_fields:
  assumes "end_page st = Inr st'"
  shows "current_text st' = [] \<and> in_page st' = False \<and> in_text st' = in_text st"
proof (cases "current_text st = []")
  case True
  with assms show ?thesis by (auto simp: end_page_def)
next
  case False
  with assms obtain words st1 where
    w: "(if words \<noteq> [] then
             write_words_to_file
               (st\<lparr>articles_processed := articles_processed st + 1,
                    articles_matched := articles_matched st + 1\<rparr>) words
           else Inr (st\<lparr>articles_processed := articles_processed st + 1\<rparr>)) = Inr st1"
    and st': "st' = st1\<lparr>current_text := [], text_lines := 0, in_page := False\<rparr>"
    by (auto simp: end_page_def and_then_def split: sum.splits)
  from w have "in_text st1 = in_text st"
    by (cases "words \<noteq> []") (auto dest: write_words_fields)
  with st' show ?thesis by simp
qed

lemma parse_line_start:
  "contains (ustr ''<page>'') line \<Longrightarrow>
     parse_line cap st line = Inr (st\<lparr>in_page := True, current_text := [], text_lines := 0\<rparr>)"
  by (simp add: parse_line_def)

lemma parse_line_text:
  assumes "parse_line cap st line = Inr st'" "t \<in> set (current_text st')"
  shows "t \<in> set (current_text st) \<or> sublist t line"
proof -
  consider (start) "contains (ustr ''<page>'') line"
    | (stop) "\<not> contains (ustr ''<page>'') line" "contains (ustr ''</page>'') line \<and> in_page st"
    | (inside) "\<not> contains (ustr ''<page>'') line" "\<not> (contains (ustr ''</page>'') line \<and> in_page st)"
        "in_page st"
    | (outside) "\<not> contains (ustr ''<page>'') line" "\<not> (contains (ustr ''</page>'') line \<and> in_page st)"
        "\<not> in_page st"
    by blast
  then show ?thesis
  proof cases
    case start
    with assms show ?thesis by (auto simp: parse_line_def)
  next
    case stop
    with assms(1) have "end_page st = Inr st'" by (simp add: parse_line_def)
    from end_page_fields[OF this] assms(2) show ?thesis by simp
  next
    case inside
    with assms(1) have "st' = page_line cap st line" by (simp add: parse_line_def)
    with assms(2) page_line_text show ?thesis by blast
  next
    case outside
    with assms show ?thesis by (auto simp: parse_line_def)
  qed
qed

lemma parse_lines_text:
  "parse_lines cap st ls = Inr st' \<Longrightarrow> t \<in> set (current_text st') \<Longrightarrow>
     t \<in> set (current_text st) \<or> (\<exists>l\<in>set ls. sublist t l)"
proof (induction ls arbitrary: st)
  case Nil
  then show ?case by simp
next
  case (Cons l ls)
  from Cons.prems(1) obtain st1 where 1: "parse_line cap st l = Inr st1"
    and 2: "parse_lines cap st1 ls = Inr st'"
    by (auto simp: and_then_def split: sum.splits)
  from Cons.IH[OF 2 Cons.prems(2)] parse_line_text[OF 1, of t] show ?case by auto
qed

text \<open>Lines without a marker, read inside a text field.\<close>

lemma plain_line_step:
  assumes "\<not> contains (ustr ''<page>'') line" "\<not> contains (ustr ''</page>'') line"
    "\<not> contains (ustr ''<text'') line" "\<not> contains (ustr ''</text>'') line"
    "in_page st" "in_text st"
  shows "parse_line cap st line =
     Inr (if text_lines st + 1 > cap
          then st\<lparr>current_text := [], text_lines := text_lines st + 1, in_text := False\<rparr>
          else st\<lparr>current_text := current_text st @ [line], text_lines := text_lines st + 1\<rparr>)"
  using assms by (simp add: parse_line_def page_line_def Let_def)

lemma plain_lines_run:
  assumes "\<not> contains (ustr ''<page>'') line" "\<not> contains (ustr ''</page>'') line"
    "\<not> contains (ustr ''<text'') line" "\<not> contains (ustr ''</text>'') line"
  shows "in_page st \<Longrightarrow> in_text st \<Longrightarrow> text_lines st + k \<le> cap \<Longrightarrow>
     parse_lines cap st (replicate k line @ rest) =
     parse_lines cap (st\<lparr>current_text := current_text st @ replicate k line,
                          text_lines := text_lines st + k\<rparr>) rest"
proof (induction k arbitrary: st)
  case 0
  then show ?case by simp
next
  case (Suc k)
  let ?st1 = "st\<lparr>current_text := current_text st @ [line], text_lines := text_lines st + 1\<rparr>"
  from Suc.prems have step: "parse_line cap st line = Inr ?st1"
    using plain_line_step[OF assms, of st cap] by simp
  from Suc.prems have "parse_lines cap ?st1 (replicate k line @ rest) =
     parse_lines cap (?st1\<lparr>current_text := current_text ?st1 @ replicate k line,
                          text_lines := text_lines ?st1 + k\<rparr>) rest"
    by (intro Suc.IH) simp_all
  with step show ?case by (simp add: and_then_def replicate_app_Cons_same)
qed

lemma parse_line_not_in_text:
  assumes "parse_line cap st line = Inr st'" "\<not> in_text st"
    "\<not> contains (ustr ''<text'') line"
  shows "\<not> in_text st'"
proof -
  consider (start) "contains (ustr ''<page>'') line"
    | (stop) "\<not> contains (ustr ''<page>'') line" "contains (ustr ''</page>'') line \<and> in_page st"
    | (inside) "\<not> contains (ustr ''<page>'') line" "\<not> (contains (ustr ''</page>'') line \<and> in_page st)"
        "in_page st"
    | (outside) "\<not> contains (ustr ''<page>'') line" "\<not> (contains (ustr ''</page>'') line \<and> in_page st)"
        "\<not> in_page st"
    by blast
  then show ?thesis
  proof cases
    case start
    with assms show ?thesis by (auto simp: parse_line_def)
  next
    case stop
    with assms(1) have "end_page st = Inr st'" by (simp add: parse_line_def)
    from end_page_fields[OF this] assms(2) show ?thesis by simp
  next
    case inside
    with assms(1) have "st' = page_line cap st line" by (simp add: parse_line_def)
    with assms(2,3) show ?thesis
      by (auto simp: page_line_def append_group_def split: option.splits)
  next
    case outside
    with assms show ?thesis by (auto simp: parse_line_def)
  qed
qed

lemma parse_lines_not_in_text:
  "parse_lines cap st ls = Inr st' \<Longrightarrow> \<not> in_text st \<Longrightarrow>
     \<forall>l\<in>set ls. \<not> contains (ustr ''<text'') l \<Longrightarrow> \<not> in_text st'"
proof (induction ls arbitrary: st)
  case Nil
  then show ?case by simp
next
  case (Cons l ls)
  from Cons.prems(1) obtain st1 where 1: "parse_line cap st l = Inr st1"
    and 2: "parse_lines cap st1 ls = Inr st'"
    by (auto simp: and_then_def split: sum.splits)
  from parse_line_not_in_text[OF 1 Cons.prems(2)] Cons.prems(3) have "\<not> in_text st1" by simp
  from Cons.IH[OF 2 this] Cons.prems(3) show ?case by simp
qed

lemma parse_lines_from_start:
  assumes "contains (ustr ''<page>'') line"
  shows "parse_lines cap (st\<lparr>in_page := b, current_text := ct, text_lines := n\<rparr>) (line # rest)
     = parse_lines cap st (line # rest)"
  using assms by (simp add: parse_line_start and_then_def)

subsection \<open>The temporary file and the two sort paths\<close>

text \<open>
  On a file whose lines are encoded tokens, reading decodes every line, stripping changes
  nothing, and both paths of \<open>save_words\<close> write the lines that \<open>sort -u\<close> gives.
\<close>

lemma decode_encode:
  "list_all scalar w \<Longrightarrow> utf8_decode (concat (map utf8_char w) @ bs)
     = map_option (\<lambda>r. w @ r) (utf8_decode bs)"
proof (induction w)
  case Nil
  show ?case by (simp add: option.map_ident)
next
  case (Cons c w)
  then have c: "scalar c" and w: "list_all scalar w" by simp_all
  have "utf8_decode (concat (map utf8_char (c # w)) @ bs)
      = utf8_decode (utf8_char c @ (concat (map utf8_char w) @ bs))" by simp
  also have "\<dots> = map_option (\<lambda>r. c # r) (utf8_decode (concat (map utf8_char w) @ bs))"
    by (rule decode_char[OF c])
  also have "\<dots> = map_option (\<lambda>r. c # r) (map_option (\<lambda>r. w @ r) (utf8_decode bs))"
    using Cons.IH[OF w] by simp
  also have "\<dots> = map_option (\<lambda>r. (c # w) @ r) (utf8_decode bs)"
    by (simp add: option.map_comp comp_def)
  finally show ?case .
qed

lemma utf8_encode_scalar: "list_all scalar w \<Longrightarrow> utf8_encode w = Some (concat (map utf8_char w))"
  by (simp add: utf8_encode_def)

lemma utf8_roundtrip:
  assumes "utf8_encode w = Some l"
  shows "utf8_decode l = Some w"
proof -
  from assms have s: "list_all scalar w" and l: "l = concat (map utf8_char w)"
    by (auto simp: utf8_encode_def split: if_splits)
  from decode_encode[OF s, of "[]"] l show ?thesis by simp
qed

lemma token_scalar: "token w \<Longrightarrow> list_all scalar w"
  unfolding token_def list_all_iff using token_char_facts by blast

lemma token_no_space: "token w \<Longrightarrow> c \<in> set w \<Longrightarrow> \<not> isspace c"
  unfolding token_def list_all_iff using token_char_facts by blast

lemma isspace_newlines: "isspace 10" "isspace 13"
  by (simp_all add: isspace_def in_ranges_def whitespace_def)

lemma strip_token_line:
  assumes "token w"
  shows "strip (w @ [10]) = w"
proof -
  from assms have ne: "w \<noteq> []" by (auto simp: token_def)
  then have h: "\<not> isspace (hd w)" and l: "\<not> isspace (last w)"
    using token_no_space[OF assms] by simp_all
  from ne h have 1: "dropWhile isspace (w @ [10]) = w @ [10]"
    by (cases w) simp_all
  from ne l have 2: "dropWhile isspace (rev w) = rev w"
    by (cases "rev w") (simp_all add: last_rev[symmetric] hd_rev)
  show ?thesis unfolding strip_def 1 by (simp add: isspace_newlines 2)
qed

lemma universal_newlines_id: "13 \<notin> set s \<Longrightarrow> universal_newlines s = s"
  by (induction s rule: universal_newlines.induct) auto

lemma split_lines_one: "10 \<notin> set w \<Longrightarrow> split_lines acc (w @ [10]) = [rev acc @ w @ [10]]"
  by (induction w arbitrary: acc) auto

lemma file_lines_token:
  assumes "token w"
  shows "file_lines (w @ [10]) = [w @ [10]]"
proof -
  from token_no_space[OF assms] isspace_newlines have "10 \<notin> set w" "13 \<notin> set w" by blast+
  then show ?thesis
    using universal_newlines_id[of "w @ [10]"] split_lines_one[of w "[]"]
    by (simp add: file_lines_def)
qed

lemma those_map_Some:
  "\<forall>x\<in>set xs. f x = Some (g x) \<Longrightarrow> those (map f xs) = Some (map g xs)"
  by (induction xs) simp_all

lemma those_append:
  "those xs = Some a \<Longrightarrow> those ys = Some b \<Longrightarrow> those (xs @ ys) = Some (a @ b)"
  by (induction xs arbitrary: a) (auto split: option.splits)

lemma those_map_encode:
  assumes "those (map utf8_encode ws) = Some spool"
  shows "spool = map (\<lambda>w. concat (map utf8_char w)) ws \<and> list_all (list_all scalar) ws"
  using assms
proof (induction ws arbitrary: spool)
  case Nil
  then show ?case by simp
next
  case (Cons w ws)
  from Cons.prems obtain l ls where l: "utf8_encode w = Some l"
    and ls: "those (map utf8_encode ws) = Some ls" and spool: "spool = l # ls"
    by (auto split: option.splits)
  from l have "list_all scalar w" "l = concat (map utf8_char w)"
    by (auto simp: utf8_encode_def split: if_splits)
  with Cons.IH[OF ls] spool show ?case by simp
qed

lemma sorted_distinct_remdups_adj:
  "sorted xs \<Longrightarrow> distinct (remdups_adj (xs :: 'a :: linorder list))"
proof (induction xs rule: remdups_adj.induct)
  case 1
  then show ?case by simp
next
  case (2 x)
  then show ?case by simp
next
  case (3 x y xs)
  show ?case
  proof (cases "x = y")
    case True
    with 3 show ?thesis by simp
  next
    case False
    from "3.prems" have "x \<le> y" "\<forall>z\<in>set xs. y \<le> z" by auto
    with False have "x \<notin> set (y # xs)" by auto
    moreover from "3.prems" have "sorted (y # xs)" by simp
    ultimately show ?thesis using 3 False by simp
  qed
qed

lemma remdups_adj_map_inj_on:
  "inj_on f (set xs) \<Longrightarrow> remdups_adj (map f xs) = map f (remdups_adj xs)"
proof (induction xs rule: remdups_adj.induct)
  case 1
  then show ?case by simp
next
  case (2 x)
  then show ?case by simp
next
  case (3 x y xs)
  from "3.prems" have inj: "inj_on f (set (y # xs))" and eq: "f x = f y \<longleftrightarrow> x = y"
    by (auto simp: inj_on_def)
  show ?case
  proof (cases "x = y")
    case True
    with 3 inj show ?thesis by simp
  next
    case False
    with 3 inj eq show ?thesis by simp
  qed
qed

lemma dedup_stream_some:
  "list_all token ws \<Longrightarrow>
     dedup_stream (Some q) (map (\<lambda>w. w @ [10]) ws) = tl (remdups_adj (q # ws))"
proof (induction ws arbitrary: q)
  case Nil
  then show ?case by simp
next
  case (Cons w ws)
  then have w: "token w" and ws: "list_all token ws" by simp_all
  from w have ne: "w \<noteq> []" by (auto simp: token_def)
  have step: "dedup_stream (Some q) (map (\<lambda>w. w @ [10]) (w # ws))
      = (if w = q then dedup_stream (Some q) (map (\<lambda>w. w @ [10]) ws)
         else w # dedup_stream (Some w) (map (\<lambda>w. w @ [10]) ws))"
    using ne by (simp add: strip_token_line[OF w] Let_def)
  show ?case unfolding step using Cons.IH[OF ws, of q] Cons.IH[OF ws, of w] by simp
qed

lemma dedup_stream_none:
  assumes "list_all token ws"
  shows "dedup_stream None (map (\<lambda>w. w @ [10]) ws) = remdups_adj ws"
proof (cases ws)
  case Nil
  then show ?thesis by simp
next
  case (Cons w r)
  with assms have w: "token w" and r: "list_all token r" by simp_all
  from w have ne: "w \<noteq> []" by (auto simp: token_def)
  have "dedup_stream None (map (\<lambda>w. w @ [10]) (w # r))
      = w # dedup_stream (Some w) (map (\<lambda>w. w @ [10]) r)"
    using ne by (simp add: strip_token_line[OF w] Let_def)
  with dedup_stream_some[OF r, of w] Cons show ?thesis by simp
qed

lemma spool_lines:
  assumes "list_all token ws" "those (map utf8_encode ws) = Some spool"
  shows "\<forall>l\<in>set spool. \<exists>w. token w \<and> utf8_encode w = Some l"
proof -
  from those_map_encode[OF assms(2)] have spool: "spool = map (\<lambda>w. concat (map utf8_char w)) ws"
    by simp
  show ?thesis
  proof
    fix l assume "l \<in> set spool"
    with spool obtain w where w: "w \<in> set ws" "l = concat (map utf8_char w)" by auto
    with assms(1) have "token w" by (simp add: list_all_iff)
    with w utf8_encode_scalar[OF token_scalar[OF this]] show "\<exists>w. token w \<and> utf8_encode w = Some l"
      by auto
  qed
qed

lemma token_lines_decode:
  "\<forall>l\<in>set ls. \<exists>w. token w \<and> utf8_encode w = Some l \<Longrightarrow>
     \<exists>ts. list_all token ts \<and> those (map utf8_encode ts) = Some ls
       \<and> those (map utf8_decode ls) = Some ts"
proof (induction ls)
  case Nil
  then show ?case by simp
next
  case (Cons l ls)
  then obtain w where w: "token w" "utf8_encode w = Some l" by auto
  from Cons obtain ts where ts: "list_all token ts" "those (map utf8_encode ts) = Some ls"
    "those (map utf8_decode ls) = Some ts" by auto
  from w ts utf8_roundtrip[OF w(2)]
  have "list_all token (w # ts) \<and> those (map utf8_encode (w # ts)) = Some (l # ls)
       \<and> those (map utf8_decode (l # ls)) = Some (w # ts)"
    by simp
  then show ?case by blast
qed

lemma read_token_lines:
  assumes "list_all token ts" "those (map utf8_decode ls) = Some ts"
  shows "read_text ls = Some (map (\<lambda>t. t @ [10]) ts)"
proof -
  from assms(1) have "concat (map (\<lambda>t. file_lines (t @ [10])) ts) = map (\<lambda>t. t @ [10]) ts"
    by (induction ts) (simp_all add: file_lines_token)
  with assms(2) show ?thesis by (simp add: read_text_def)
qed

lemma encode_inj_on_tokens:
  "list_all token ts \<Longrightarrow> inj_on (\<lambda>w. concat (map utf8_char w)) (set ts)"
proof (rule inj_onI)
  fix v w
  assume ts: "list_all token ts" and v: "v \<in> set ts" and w: "w \<in> set ts"
    and eq: "concat (map utf8_char v) = concat (map utf8_char w)"
  from ts v w have "token v" "token w"
    by (simp_all add: list_all_iff)
  then have "list_all scalar v" "list_all scalar w"
    by (simp_all add: token_scalar)
  from decode_encode[OF this(1), of "[]"] decode_encode[OF this(2), of "[]"] eq
  show "v = w" by simp
qed

lemma encode_remdups_adj:
  assumes "list_all token ts" "those (map utf8_encode ts) = Some ls"
  shows "those (map utf8_encode (remdups_adj ts)) = Some (remdups_adj ls)"
proof -
  from those_map_encode[OF assms(2)] have ls: "ls = map (\<lambda>w. concat (map utf8_char w)) ts"
    by simp
  from assms(1) have "\<forall>w\<in>set (remdups_adj ts). utf8_encode w = Some (concat (map utf8_char w))"
    by (auto simp: list_all_iff intro: utf8_encode_scalar token_scalar)
  then have "those (map utf8_encode (remdups_adj ts))
      = Some (map (\<lambda>w. concat (map utf8_char w)) (remdups_adj ts))"
    by (rule those_map_Some)
  also have "map (\<lambda>w. concat (map utf8_char w)) (remdups_adj ts) = remdups_adj ls"
    unfolding ls by (rule remdups_adj_map_inj_on[symmetric, OF encode_inj_on_tokens[OF assms(1)]])
  finally show ?thesis .
qed

lemma save_primary_tokens:
  assumes "list_all token ws" "those (map utf8_encode ws) = Some spool"
  shows "save_primary st spool = Inr (st\<lparr>output_file := Some (sort_u spool), temp_file := None\<rparr>)"
proof -
  from spool_lines[OF assms]
  have "\<forall>l\<in>set (sort_u spool). \<exists>w. token w \<and> utf8_encode w = Some l"
    by (simp add: sort_u_def)
  from token_lines_decode[OF this] obtain ts where "list_all token ts"
    "those (map utf8_decode (sort_u spool)) = Some ts" by blast
  from read_token_lines[OF this] show ?thesis by (simp add: save_primary_def)
qed

lemma save_fallback_tokens:
  assumes "list_all token ws" "those (map utf8_encode ws) = Some spool"
  shows "save_fallback st spool = Inr (st\<lparr>output_file := Some (sort_u spool), temp_file := None\<rparr>)"
proof -
  from spool_lines[OF assms]
  have "\<forall>l\<in>set (sort spool). \<exists>w. token w \<and> utf8_encode w = Some l"
    by simp
  from token_lines_decode[OF this] obtain ts where ts: "list_all token ts"
    "those (map utf8_encode ts) = Some (sort spool)"
    "those (map utf8_decode (sort spool)) = Some ts" by blast
  from read_token_lines[OF ts(1,3)]
  have rd: "read_text (sort spool) = Some (map (\<lambda>t. t @ [10]) ts)" .
  from encode_remdups_adj[OF ts(1,2)]
  have "those (map utf8_encode (dedup_stream None (map (\<lambda>t. t @ [10]) ts))) = Some (sort_u spool)"
    by (simp add: dedup_stream_none[OF ts(1)] sort_u_def)
  with rd show ?thesis by (simp add: save_fallback_def)
qed

lemma sort_u_properties:
  "sorted (sort_u ls) \<and> distinct (sort_u ls) \<and> set (sort_u ls) = set ls"
  by (simp add: sort_u_def sorted_distinct_remdups_adj)

lemma token_line_nonempty:
  assumes "token w" "utf8_encode w = Some l"
  shows "l \<noteq> []"
proof -
  from assms(1) obtain c r where w: "w = c # r" by (cases w) (auto simp: token_def)
  have "utf8_char c \<noteq> []" by (simp add: utf8_char_def)
  with assms(2) w show ?thesis by (auto simp: utf8_encode_def split: if_splits)
qed

lemma save_words_tokens:
  assumes "list_all token ws" "those (map utf8_encode ws) = Some spool"
    "temp_file st = Some spool" "sort_u_ok env \<or> sort_ok env"
  shows "save_words env st = Inr (st\<lparr>output_file := Some (sort_u spool), temp_file := None\<rparr>)"
  using assms(3,4) save_primary_tokens[OF assms(1,2), of st] save_fallback_tokens[OF assms(1,2), of st]
  by (auto simp: save_words_def)

text \<open>The temporary file that the parse leaves holds encoded tokens only.\<close>

lemma write_words_spool:
  assumes inv: "\<forall>spool. temp_file st = Some spool \<longrightarrow>
      (\<exists>ws. list_all token ws \<and> those (map utf8_encode ws) = Some spool)"
    and words: "list_all token words"
    and wr: "write_words_to_file st words = Inr st'"
  shows "\<forall>spool. temp_file st' = Some spool \<longrightarrow>
      (\<exists>ws. list_all token ws \<and> those (map utf8_encode ws) = Some spool)"
proof -
  from wr obtain ls where ls: "those (map utf8_encode words) = Some ls"
    and st': "temp_file st' = Some ((case temp_file st of None \<Rightarrow> [] | Some old \<Rightarrow> old) @ ls)"
    by (auto simp: write_words_to_file_def split: option.splits)
  obtain old ws0 where old: "(case temp_file st of None \<Rightarrow> [] | Some old \<Rightarrow> old) = old"
    and ws0: "list_all token ws0" "those (map utf8_encode ws0) = Some old"
  proof (cases "temp_file st")
    case None
    then have "(case temp_file st of None \<Rightarrow> [] | Some old \<Rightarrow> old) = []"
      "list_all token []" "those (map utf8_encode []) = Some []" by simp_all
    then show ?thesis using that by blast
  next
    case (Some old)
    with inv obtain ws0 where "list_all token ws0" "those (map utf8_encode ws0) = Some old"
      by blast
    with Some that show ?thesis by simp
  qed
  from those_append[OF ws0(2) ls] ws0(1) words
  have "list_all token (ws0 @ words) \<and> those (map utf8_encode (ws0 @ words)) = Some (old @ ls)"
    by simp
  then have "\<exists>ws. list_all token ws \<and> those (map utf8_encode ws) = Some (old @ ls)"
    by blast
  moreover from st' old have "temp_file st' = Some (old @ ls)" by simp
  ultimately show ?thesis by simp
qed

lemma end_page_spool:
  assumes inv: "\<forall>spool. temp_file st = Some spool \<longrightarrow>
      (\<exists>ws. list_all token ws \<and> those (map utf8_encode ws) = Some spool)"
    and ep: "end_page st = Inr st'"
  shows "\<forall>spool. temp_file st' = Some spool \<longrightarrow>
      (\<exists>ws. list_all token ws \<and> those (map utf8_encode ws) = Some spool)"
proof (cases "current_text st = []")
  case True
  with ep have "temp_file st' = temp_file st" by (auto simp: end_page_def)
  with inv show ?thesis by simp
next
  case False
  with ep obtain words st1 where ex: "extract_words (concat (current_text st)) = Inr words"
    and w: "(if words \<noteq> [] then
             write_words_to_file
               (st\<lparr>articles_processed := articles_processed st + 1,
                    articles_matched := articles_matched st + 1\<rparr>) words
           else Inr (st\<lparr>articles_processed := articles_processed st + 1\<rparr>)) = Inr st1"
    and st': "st' = st1\<lparr>current_text := [], text_lines := 0, in_page := False\<rparr>"
    by (auto simp: end_page_def and_then_def split: sum.splits)
  from extract_words_tokens[OF ex] have tok: "list_all token words" by (simp add: list_all_iff)
  have "\<forall>spool. temp_file st1 = Some spool \<longrightarrow>
      (\<exists>ws. list_all token ws \<and> those (map utf8_encode ws) = Some spool)"
  proof (cases "words \<noteq> []")
    case True
    with w have "write_words_to_file
               (st\<lparr>articles_processed := articles_processed st + 1,
                    articles_matched := articles_matched st + 1\<rparr>) words = Inr st1" by simp
    from write_words_spool[OF _ tok this] inv show ?thesis by simp
  next
    case False
    with w inv show ?thesis by auto
  qed
  with st' show ?thesis by simp
qed

lemma page_line_temp_file: "temp_file (page_line cap st line) = temp_file st"
  by (auto simp: page_line_def append_group_def Let_def split: option.splits)

lemma parse_line_spool:
  assumes inv: "\<forall>spool. temp_file st = Some spool \<longrightarrow>
      (\<exists>ws. list_all token ws \<and> those (map utf8_encode ws) = Some spool)"
    and pl: "parse_line cap st line = Inr st'"
  shows "\<forall>spool. temp_file st' = Some spool \<longrightarrow>
      (\<exists>ws. list_all token ws \<and> those (map utf8_encode ws) = Some spool)"
proof -
  consider (stop) "end_page st = Inr st'" | (other) "temp_file st' = temp_file st"
    using pl by (auto simp: parse_line_def page_line_temp_file split: if_splits)
  then show ?thesis
  proof cases
    case stop
    from end_page_spool[OF inv this] show ?thesis .
  next
    case other
    with inv show ?thesis by simp
  qed
qed

lemma parse_lines_spool:
  "\<forall>spool. temp_file st = Some spool \<longrightarrow>
      (\<exists>ws. list_all token ws \<and> those (map utf8_encode ws) = Some spool) \<Longrightarrow>
   parse_lines cap st ls = Inr st' \<Longrightarrow>
   \<forall>spool. temp_file st' = Some spool \<longrightarrow>
      (\<exists>ws. list_all token ws \<and> those (map utf8_encode ws) = Some spool)"
proof (induction ls arbitrary: st)
  case Nil
  then show ?case by simp
next
  case (Cons l ls)
  from Cons.prems(2) obtain st1 where 1: "parse_line cap st l = Inr st1"
    and 2: "parse_lines cap st1 ls = Inr st'"
    by (auto simp: and_then_def split: sum.splits)
  from Cons.IH[OF parse_line_spool[OF Cons.prems(1) 1] 2] show ?case .
qed

lemma parse_spool_tokens:
  assumes "parse_dump_regex self dump = Inr st" "temp_file st = Some spool"
  shows "\<exists>ws. list_all token ws \<and> those (map utf8_encode ws) = Some spool"
proof -
  from assms(1) have "parse_lines max_text_lines
       (self\<lparr>temp_file := None, articles_processed := 0, articles_matched := 0,
             in_page := False, in_text := False, current_text := [], text_lines := 0\<rparr>)
       (file_lines dump) = Inr st"
    by (simp add: parse_dump_regex_def)
  from parse_lines_spool[OF _ this] assms(2) show ?thesis by simp
qed

text \<open>
  The order in which \<open>write_words_to_file\<close> walks a set of words is not fixed by
  Python: the output of \<open>save_words\<close> depends on the set of lines only.
\<close>

lemma sort_u_set: "set a = set b \<Longrightarrow> sort_u a = sort_u b"
proof -
  assume "set a = set b"
  then have "set (sort_u a) = set (sort_u b)" by (simp add: sort_u_def)
  with sort_u_properties[of a] sort_u_properties[of b] show ?thesis
    by (intro sorted_distinct_set_unique) simp_all
qed

subsection \<open>What the model of the matcher relies on\<close>

text \<open>
  None of the ten patterns matches the empty string, so \<open>first_match\<close> never turns down
  a match; and group 1 takes part in every match of the two patterns of the parser, so
  \<open>group\<close> never is \<open>None\<close> in \<open>append_group\<close>.
\<close>

lemma rx_match_progress:
  "\<not> nullable r \<Longrightarrow> (ys, h) \<in> set (rx_match r xs g) \<Longrightarrow> length ys < length xs"
proof (induction r arbitrary: xs g ys h)
  case Eps
  then show ?case by simp
next
  case (Atom c)
  then show ?case by (auto split: list.splits if_splits)
next
  case (Seq a b)
  from Seq.prems(2) obtain zs k where a: "(zs, k) \<in> set (rx_match a xs g)"
    and b: "(ys, h) \<in> set (rx_match b zs k)" by auto
  from rx_match_suffix[OF a] rx_match_suffix[OF b]
  have le: "length zs \<le> length xs" "length ys \<le> length zs"
    by (simp_all add: suffix_length_le)
  from Seq.prems(1) consider "\<not> nullable a" | "\<not> nullable b" by auto
  then show ?case
  proof cases
    case 1
    from Seq.IH(1)[OF 1 a] le show ?thesis by simp
  next
    case 2
    from Seq.IH(2)[OF 2 b] le show ?thesis by simp
  qed
next
  case (Alt a b)
  then show ?case by auto
next
  case (Star r)
  then show ?case by simp
next
  case (Lazy r)
  then show ?case by simp
next
  case (Opt r)
  then show ?case by simp
next
  case (Grp n r)
  then show ?case by auto
qed

lemma lits_nullable: "nullable (lits s) \<longleftrightarrow> s = []"
  by (cases s) (simp_all add: lits_def)

lemma patterns_not_nullable:
  "\<not> nullable template_rx" "\<not> nullable link_rx" "\<not> nullable ref_rx" "\<not> nullable tag_rx"
  "\<not> nullable url_rx" "\<not> nullable category_rx" "\<not> nullable sentence_pattern"
  "\<not> nullable word_pattern" "\<not> nullable text_open_rx" "\<not> nullable text_close_rx"
  by (simp_all add: template_rx_def link_rx_def ref_rx_def tag_rx_def url_rx_def category_rx_def
      sentence_pattern_def word_pattern_def text_open_rx_def text_close_rx_def
      lit_def lits_nullable Plus_def ustr_def)

lemma first_match_head:
  assumes "\<not> nullable r"
  shows "first_match r xs =
     (case rx_match r xs [] of [] \<Rightarrow> None
      | (ys, g) # _ \<Rightarrow> Some (take (length xs - length ys) xs, ys, g))"
proof (cases "rx_match r xs []")
  case Nil
  then show ?thesis by (simp add: first_match_def)
next
  case (Cons p ps)
  obtain ys g where p: "p = (ys, g)" by (cases p)
  with Cons have "(ys, g) \<in> set (rx_match r xs [])" by simp
  from rx_match_progress[OF assms this] Cons p show ?thesis by (simp add: first_match_def)
qed

lemma rx_match_keeps_groups:
  "(ys, h) \<in> set (rx_match r xs g) \<Longrightarrow> n \<in> fst ` set g \<Longrightarrow> n \<in> fst ` set h"
proof (induction r xs g arbitrary: ys h rule: rx_match.induct)
  case (1 xs g)
  then show ?case by simp
next
  case (2 c xs g)
  then show ?case by (auto split: list.splits if_splits)
next
  case (3 a b xs g)
  from "3.prems"(1) obtain zs k where a: "(zs, k) \<in> set (rx_match a xs g)"
    and b: "(ys, h) \<in> set (rx_match b zs k)" by auto
  from "3.IH"(2)[OF a refl b "3.IH"(1)[OF a "3.prems"(2)]] show ?case .
next
  case (4 a b xs g)
  then show ?case by auto
next
  case (5 a xs g)
  from "5.prems"(1) consider "(ys, h) = (xs, g)"
    | zs k where "(zs, k) \<in> set (rx_match a xs g)" "length zs < length xs"
        "(ys, h) \<in> set (rx_match (Star a) zs k)"
    by (subst (asm) rx_match.simps) (auto split: if_splits)
  then show ?case
  proof cases
    case 1
    with "5.prems"(2) show ?thesis by simp
  next
    case 2
    from "5.IH"(2)[OF 2(1) refl 2(2) 2(3) "5.IH"(1)[OF 2(1) "5.prems"(2)]] show ?thesis .
  qed
next
  case (6 a xs g)
  from "6.prems"(1) consider "(ys, h) = (xs, g)"
    | zs k where "(zs, k) \<in> set (rx_match a xs g)" "length zs < length xs"
        "(ys, h) \<in> set (rx_match (Lazy a) zs k)"
    by (subst (asm) rx_match.simps) (auto split: if_splits)
  then show ?case
  proof cases
    case 1
    with "6.prems"(2) show ?thesis by simp
  next
    case 2
    from "6.IH"(2)[OF 2(1) refl 2(2) 2(3) "6.IH"(1)[OF 2(1) "6.prems"(2)]] show ?thesis .
  qed
next
  case (7 a xs g)
  then show ?case by auto
next
  case (8 m a xs g)
  from "8.prems"(1) obtain h' where h': "(ys, h') \<in> set (rx_match a xs g)"
    and h: "h = (m, take (length xs - length ys) xs) # h'" by auto
  from "8.IH"[OF h' "8.prems"(2)] h show ?case by simp
qed

lemma rx_match_Grp_sets: "(ys, h) \<in> set (rx_match (Grp n a) xs g) \<Longrightarrow> n \<in> fst ` set h"
  by auto

lemma group_present: "n \<in> fst ` set h \<Longrightarrow> group h n \<noteq> None"
  by (simp add: group_def map_of_eq_None_iff)

lemma rx_match_Seq:
  "(ys, h) \<in> set (rx_match (Seq a b) xs g) \<Longrightarrow>
     \<exists>zs k. (zs, k) \<in> set (rx_match a xs g) \<and> (ys, h) \<in> set (rx_match b zs k)"
  by auto

lemma text_open_group:
  assumes "(ys, h) \<in> set (rx_match text_open_rx xs g)"
  shows "group h 1 \<noteq> None"
proof -
  from assms[unfolded text_open_rx_def] obtain z1 k1 where
    "(ys, h) \<in> set (rx_match (Seq (Star (Atom (NoneOf [(62, 62)])))
        (Seq (Atom (Chr 62)) (Grp 1 (Star (Atom AnyChar))))) z1 k1)"
    using rx_match_Seq by blast
  then obtain z2 k2 where
    "(ys, h) \<in> set (rx_match (Seq (Atom (Chr 62)) (Grp 1 (Star (Atom AnyChar)))) z2 k2)"
    using rx_match_Seq by blast
  then obtain z3 k3 where "(ys, h) \<in> set (rx_match (Grp 1 (Star (Atom AnyChar))) z3 k3)"
    using rx_match_Seq by blast
  from rx_match_Grp_sets[OF this] show ?thesis by (rule group_present)
qed

lemma text_close_group:
  assumes "(ys, h) \<in> set (rx_match text_close_rx xs g)"
  shows "group h 1 \<noteq> None"
proof -
  from assms[unfolded text_close_rx_def] obtain zs k where
    a: "(zs, k) \<in> set (rx_match (Grp 1 (Star (Atom AnyChar))) xs g)"
    and b: "(ys, h) \<in> set (rx_match (lit ''</text>'') zs k)"
    using rx_match_Seq by blast
  from rx_match_keeps_groups[OF b rx_match_Grp_sets[OF a]] show ?thesis by (rule group_present)
qed

lemma re_search_in_match:
  "re_search r xs = Some (m, ys, g) \<Longrightarrow> \<exists>zs. (ys, g) \<in> set (rx_match r zs [])"
proof (induction xs)
  case Nil
  then show ?case by simp
next
  case (Cons x xs)
  show ?case
  proof (cases "first_match r (x # xs)")
    case None
    with Cons show ?thesis by simp
  next
    case (Some t)
    with Cons.prems have "first_match r (x # xs) = Some (m, ys, g)" by simp
    from first_match_rest[OF this] show ?thesis by blast
  qed
qed

lemma append_group_total:
  "re_search text_open_rx line = Some (m, ys, g) \<Longrightarrow> group g 1 \<noteq> None"
  "re_search text_close_rx line = Some (m, ys, g) \<Longrightarrow> group g 1 \<noteq> None"
  using re_search_in_match text_open_group text_close_group by blast+

subsection \<open>The characters that pass the gate\<close>

text \<open>
  A character lowercases to a letter of \<open>vietnamese_chars\<close> exactly when it is one of the
  67 letters or the capital of one: the letter less 32 in Latin-1, less 1 elsewhere.
\<close>

lemma capitals_pass:
  "list_all (\<lambda>c. \<exists>d\<in>set (lower_cp c). d \<in> set vietnamese_chars)
     (vietnamese_chars @ map (\<lambda>d. if d < 256 then d - 32 else d - 1) vietnamese_chars)"
  by (simp add: vietnamese_chars_def lower_cp_def)

lemma lower_cp_shape:
  "lower_cp c = [c + 32] \<and> 192 \<le> c \<and> c \<le> 222
   \<or> lower_cp c = [c + 32] \<and> 65 \<le> c \<and> c \<le> 90
   \<or> lower_cp c = [c + 1] \<and> 256 \<le> c
   \<or> lower_cp c = [105, 775] \<or> lower_cp c = [255] \<or> lower_cp c = [223]
   \<or> lower_cp c = [107] \<or> lower_cp c = [c]"
  by (simp add: lower_cp_def)

lemma capital_32:
  "192 \<le> c \<Longrightarrow> c \<le> 222 \<Longrightarrow> c + 32 \<in> set vietnamese_chars \<Longrightarrow>
     c \<in> set (map (\<lambda>d. if d < 256 then d - 32 else d - 1) vietnamese_chars)"
  unfolding vietnamese_chars_def by auto

lemma capital_1:
  "256 \<le> c \<Longrightarrow> c + 1 \<in> set vietnamese_chars \<Longrightarrow>
     c \<in> set (map (\<lambda>d. if d < 256 then d - 32 else d - 1) vietnamese_chars)"
  unfolding vietnamese_chars_def by auto

lemma not_letters:
  "c \<le> 90 \<Longrightarrow> c + 32 \<notin> set vietnamese_chars"
  "105 \<notin> set vietnamese_chars" "775 \<notin> set vietnamese_chars" "255 \<notin> set vietnamese_chars"
  "223 \<notin> set vietnamese_chars" "107 \<notin> set vietnamese_chars"
  by (auto simp: vietnamese_chars_def)

lemma gate_char:
  "(\<exists>d\<in>set (lower_cp c). d \<in> set vietnamese_chars) \<longleftrightarrow>
     c \<in> set vietnamese_chars
     \<or> c \<in> set (map (\<lambda>d. if d < 256 then d - 32 else d - 1) vietnamese_chars)"
proof
  assume "\<exists>d\<in>set (lower_cp c). d \<in> set vietnamese_chars"
  then obtain d where d: "d \<in> set (lower_cp c)" "d \<in> set vietnamese_chars" by blast
  from lower_cp_shape[of c] consider
      (latin1) "lower_cp c = [c + 32]" "192 \<le> c" "c \<le> 222"
    | (ascii) "lower_cp c = [c + 32]" "c \<le> 90"
    | (pair) "lower_cp c = [c + 1]" "256 \<le> c"
    | (other) "lower_cp c = [105, 775] \<or> lower_cp c = [255] \<or> lower_cp c = [223]
        \<or> lower_cp c = [107]"
    | (same) "lower_cp c = [c]"
    by blast
  then show "c \<in> set vietnamese_chars
     \<or> c \<in> set (map (\<lambda>d. if d < 256 then d - 32 else d - 1) vietnamese_chars)"
  proof cases
    case latin1
    with d have "c + 32 \<in> set vietnamese_chars" by simp
    from capital_32[OF latin1(2,3) this] show ?thesis by blast
  next
    case ascii
    with d have "c + 32 \<in> set vietnamese_chars" by simp
    with not_letters(1)[OF ascii(2)] show ?thesis by blast
  next
    case pair
    with d have "c + 1 \<in> set vietnamese_chars" by simp
    from capital_1[OF pair(2) this] show ?thesis by blast
  next
    case other
    with d not_letters(2-6) show ?thesis by auto
  next
    case same
    with d show ?thesis by simp
  qed
next
  assume "c \<in> set vietnamese_chars
     \<or> c \<in> set (map (\<lambda>d. if d < 256 then d - 32 else d - 1) vietnamese_chars)"
  then have "c \<in> set (vietnamese_chars
      @ map (\<lambda>d. if d < 256 then d - 32 else d - 1) vietnamese_chars)"
    by simp
  with capitals_pass show "\<exists>d\<in>set (lower_cp c). d \<in> set vietnamese_chars"
    unfolding list_all_iff by blast
qed

lemma gate_chars:
  "has_vietnamese_diacritic span \<longleftrightarrow>
     (\<exists>c\<in>set span. c \<in> set vietnamese_chars
        \<or> c \<in> set (map (\<lambda>d. if d < 256 then d - 32 else d - 1) vietnamese_chars))"
proof -
  have "has_vietnamese_diacritic span
      \<longleftrightarrow> (\<exists>c\<in>set span. \<exists>d\<in>set (lower_cp c). d \<in> set vietnamese_chars)"
    unfolding gate_iff by (auto simp: lower_def)
  then show ?thesis unfolding gate_char .
qed

section \<open>The claims\<close>

text \<open>
  C1. On a temporary file written by the parse, that is, one whose lines are the encoded
  tokens handed to \<open>write_words_to_file\<close>, \<open>save_words\<close> writes an output file, by
  whichever sort path runs, whose lines are sorted in byte order, pairwise different, the
  same lines as those of the temporary file, and none empty. Every temporary file that
  \<open>parse_dump_regex\<close> leaves is of this kind. Scenario C is the instance
  \<open>anh, anh, em, anh\<close>.
\<close>

theorem save_words_sorted_unique:
  "(list_all token ws \<and> those (map utf8_encode ws) = Some spool \<and> temp_file st = Some spool
      \<and> (sort_u_ok env \<or> sort_ok env) \<longrightarrow>
      (\<exists>out. save_words env st = Inr (st\<lparr>output_file := Some out, temp_file := None\<rparr>)
         \<and> sorted out \<and> distinct out \<and> set out = set spool \<and> [] \<notin> set out))
   \<and> (parse_dump_regex self dump = Inr st' \<and> temp_file st' = Some spool' \<longrightarrow>
      (\<exists>ws'. list_all token ws' \<and> those (map utf8_encode ws') = Some spool'))
   \<and> save_words \<lparr>sort_u_ok = True, sort_ok = True\<rparr> (init (Some [''anh'', ''anh'', ''em'', ''anh'']) None)
       = Inr (init None (Some [''anh'', ''em'']))"
proof -
  have 1: "\<exists>out. save_words env st = Inr (st\<lparr>output_file := Some out, temp_file := None\<rparr>)
         \<and> sorted out \<and> distinct out \<and> set out = set spool \<and> [] \<notin> set out"
    if h: "list_all token ws" "those (map utf8_encode ws) = Some spool" "temp_file st = Some spool"
      "sort_u_ok env \<or> sort_ok env"
  proof -
    from spool_lines[OF h(1,2)] token_line_nonempty have "[] \<notin> set spool" by blast
    with save_words_tokens[OF h] sort_u_properties[of spool] show ?thesis by auto
  qed
  have 2: "\<exists>ws'. list_all token ws' \<and> those (map utf8_encode ws') = Some spool'"
    if "parse_dump_regex self dump = Inr st'" "temp_file st' = Some spool'"
    using parse_spool_tokens[OF that] .
  have 3: "save_words \<lparr>sort_u_ok = True, sort_ok = True\<rparr>
        (init (Some [''anh'', ''anh'', ''em'', ''anh'']) None)
       = Inr (init None (Some [''anh'', ''em'']))"
    by (simp add: save_defs file_defs str_defs init_def char_defs)
  from 1 2 3 show ?thesis by blast
qed

theorem save_words_sorted_unique_witness:
  "list_all token [ustr ''anh'', ustr ''anh'', ustr ''em'', ustr ''anh'']
   \<and> those (map utf8_encode [ustr ''anh'', ustr ''anh'', ustr ''em'', ustr ''anh''])
       = Some [''anh'', ''anh'', ''em'', ''anh'']
   \<and> temp_file (init (Some [''anh'', ''anh'', ''em'', ''anh'']) None)
       = Some [''anh'', ''anh'', ''em'', ''anh'']
   \<and> (sort_u_ok \<lparr>sort_u_ok = False, sort_ok = True\<rparr> \<or> sort_ok \<lparr>sort_u_ok = False, sort_ok = True\<rparr>)
   \<and> (\<exists>out. save_words \<lparr>sort_u_ok = False, sort_ok = True\<rparr>
                (init (Some [''anh'', ''anh'', ''em'', ''anh'']) None)
              = Inr ((init (Some [''anh'', ''anh'', ''em'', ''anh'']) None)
                       \<lparr>output_file := Some out, temp_file := None\<rparr>)
         \<and> sorted out \<and> distinct out \<and> set out = set [''anh'', ''anh'', ''em'', ''anh'']
         \<and> [] \<notin> set out)
   \<and> parse_dump_regex (init (Some [''stale'']) None)
        (ustr ''<page>'' @ [10] @ ustr ''<text>Xin ch'' @ [224] @ ustr ''o. Hello world.</text>''
           @ [10] @ ustr ''</page>'' @ [10])
       = Inr \<lparr>in_page = False, in_text = True, current_text = [], text_lines = 0,
              articles_processed = 1, articles_matched = 1, total_words_written = 2,
              temp_file = Some [[CHR ''c'', CHR ''h'', CHR 0xC3, CHR 0xA0, CHR ''o''], ''xin''],
              output_file = None\<rparr>
   \<and> (\<exists>ws'. list_all token ws'
         \<and> those (map utf8_encode ws') = Some [[CHR ''c'', CHR ''h'', CHR 0xC3, CHR 0xA0, CHR ''o''], ''xin''])"
proof -
  have a: "list_all token [ustr ''anh'', ustr ''anh'', ustr ''em'', ustr ''anh'']"
    by (simp add: token_def token_char_def ustr_def)
  have b: "those (map utf8_encode [ustr ''anh'', ustr ''anh'', ustr ''em'', ustr ''anh''])
       = Some [''anh'', ''anh'', ''em'', ''anh'']"
    by (simp add: file_defs ustr_def char_defs)
  have c: "temp_file (init (Some [''anh'', ''anh'', ''em'', ''anh'']) None)
       = Some [''anh'', ''anh'', ''em'', ''anh'']"
    by (simp add: init_def)
  have d: "sort_u_ok \<lparr>sort_u_ok = False, sort_ok = True\<rparr> \<or> sort_ok \<lparr>sort_u_ok = False, sort_ok = True\<rparr>"
    by simp
  have e: "parse_dump_regex (init (Some [''stale'']) None)
        (ustr ''<page>'' @ [10] @ ustr ''<text>Xin ch'' @ [224] @ ustr ''o. Hello world.</text>''
           @ [10] @ ustr ''</page>'' @ [10])
       = Inr \<lparr>in_page = False, in_text = True, current_text = [], text_lines = 0,
              articles_processed = 1, articles_matched = 1, total_words_written = 2,
              temp_file = Some [[CHR ''c'', CHR ''h'', CHR 0xC3, CHR 0xA0, CHR ''o''], ''xin''],
              output_file = None\<rparr>"
    by (simp add: rx_defs str_defs extract_defs loop_simps file_defs parse_defs char_defs)
  have f: "temp_file \<lparr>in_page = False, in_text = True, current_text = [], text_lines = 0,
              articles_processed = 1, articles_matched = 1, total_words_written = 2,
              temp_file = Some [[CHR ''c'', CHR ''h'', CHR 0xC3, CHR 0xA0, CHR ''o''], ''xin''],
              output_file = None\<rparr>
      = Some [[CHR ''c'', CHR ''h'', CHR 0xC3, CHR 0xA0, CHR ''o''], ''xin'']"
    by simp
  note inst = save_words_sorted_unique[of
      "[ustr ''anh'', ustr ''anh'', ustr ''em'', ustr ''anh'']" "[''anh'', ''anh'', ''em'', ''anh'']"
      "init (Some [''anh'', ''anh'', ''em'', ''anh'']) None" "\<lparr>sort_u_ok = False, sort_ok = True\<rparr>"
      "init (Some [''stale'']) None"
      "ustr ''<page>'' @ [10] @ ustr ''<text>Xin ch'' @ [224] @ ustr ''o. Hello world.</text>''
           @ [10] @ ustr ''</page>'' @ [10]"
      "\<lparr>in_page = False, in_text = True, current_text = [], text_lines = 0,
              articles_processed = 1, articles_matched = 1, total_words_written = 2,
              temp_file = Some [[CHR ''c'', CHR ''h'', CHR 0xC3, CHR 0xA0, CHR ''o''], ''xin''],
              output_file = None\<rparr>"
      "[[CHR ''c'', CHR ''h'', CHR 0xC3, CHR 0xA0, CHR ''o''], ''xin'']"]
  from inst a b c d e f show ?thesis by blast
qed

text \<open>
  C2, as stated: a record whose text field has 10001 lines, then a last line of text with
  the field-end marker, then the record end. When the counter passes the cap the
  accumulator is cleared and the in-text flag dropped, but the record stays open and the
  counter stays at 10001; the text before the field-end marker is then accumulated, and
  the record end hands it to \<open>extract_words\<close>: the record contributes a word.
\<close>

theorem oversize_record_contributes:
  "parse_lines max_text_lines (init None None)
     ([ustr ''<page>'' @ [10], ustr ''<text>'' @ [10]] @ replicate 10000 (ustr ''x'' @ [10]))
   = Inr \<lparr>in_page = True, in_text = False, current_text = [], text_lines = 10001,
          articles_processed = 0, articles_matched = 0, total_words_written = 0,
          temp_file = None, output_file = None\<rparr>
   \<and> parse_lines max_text_lines (init None None)
     ([ustr ''<page>'' @ [10], ustr ''<text>'' @ [10]] @ replicate 10000 (ustr ''x'' @ [10])
        @ [[224] @ ustr ''b</text>'' @ [10], ustr ''</page>'' @ [10]])
   = Inr \<lparr>in_page = False, in_text = False, current_text = [], text_lines = 0,
          articles_processed = 1, articles_matched = 1, total_words_written = 1,
          temp_file = Some [[CHR 0xC3, CHR 0xA0, CHR ''b'']], output_file = None\<rparr>"
proof -
  let ?x = "ustr ''x'' @ [10]"
  let ?st2 = "\<lparr>in_page = True, in_text = True, current_text = [[10]], text_lines = 1,
          articles_processed = 0, articles_matched = 0, total_words_written = 0,
          temp_file = None, output_file = None\<rparr>"
  let ?st3 = "\<lparr>in_page = True, in_text = False, current_text = [], text_lines = 10001,
          articles_processed = 0, articles_matched = 0, total_words_written = 0,
          temp_file = None, output_file = None\<rparr>"
  have plain: "\<not> contains (ustr ''<page>'') ?x" "\<not> contains (ustr ''</page>'') ?x"
    "\<not> contains (ustr ''<text'') ?x" "\<not> contains (ustr ''</text>'') ?x"
    by (simp_all add: ustr_def)
  have head: "parse_lines max_text_lines (init None None)
      ([ustr ''<page>'' @ [10], ustr ''<text>'' @ [10]] @ rest)
      = parse_lines max_text_lines ?st2 rest" for rest
    by (simp add: rx_defs extract_defs parse_defs loop_simps)
  have "replicate (Suc 9999) ?x = replicate 9999 ?x @ [?x]"
    unfolding replicate_append_same by (rule replicate_Suc)
  moreover have "Suc 9999 = 10000" by simp
  ultimately have rep: "replicate 10000 ?x = replicate 9999 ?x @ [?x]"
    by (simp only:)
  have run: "parse_lines max_text_lines ?st2 (replicate 9999 ?x @ rest)
      = parse_lines max_text_lines
          (?st2\<lparr>current_text := current_text ?st2 @ replicate 9999 ?x,
                text_lines := text_lines ?st2 + 9999\<rparr>) rest" for rest
    by (rule plain_lines_run[OF plain]) (simp_all add: max_text_lines_def)
  have last: "parse_line max_text_lines
          (?st2\<lparr>current_text := current_text ?st2 @ replicate 9999 ?x,
                text_lines := text_lines ?st2 + 9999\<rparr>) ?x = Inr ?st3"
    by (subst plain_line_step[OF plain]) (simp_all add: max_text_lines_def)
  have body: "parse_lines max_text_lines (init None None)
      ([ustr ''<page>'' @ [10], ustr ''<text>'' @ [10]] @ replicate 10000 ?x @ rest)
      = parse_lines max_text_lines ?st3 rest" for rest
    unfolding head rep append_assoc run using last by (simp add: and_then_def)
  have tail: "parse_lines max_text_lines ?st3
      [[224] @ ustr ''b</text>'' @ [10], ustr ''</page>'' @ [10]]
      = Inr \<lparr>in_page = False, in_text = False, current_text = [], text_lines = 0,
          articles_processed = 1, articles_matched = 1, total_words_written = 1,
          temp_file = Some [[CHR 0xC3, CHR 0xA0, CHR ''b'']], output_file = None\<rparr>"
    by (simp add: rx_defs str_defs extract_defs loop_simps file_defs parse_defs char_defs)
  from body[of "[]"] body[of "[[224] @ ustr ''b</text>'' @ [10], ustr ''</page>'' @ [10]]"] tail
  show ?thesis by simp
qed

text \<open>
  C2, amended: when a line without a marker, read in the in-text state, takes the line
  counter above the cap, the accumulator is cleared and the in-text flag dropped; the
  record stays open and the counter keeps its value. Whatever lines of the record follow,
  as long as none opens a text field, the flag stays down, and the next record-start
  marker makes the loop go on exactly as from the idle state with an empty accumulator
  and a counter of zero: the record that follows yields the words it yields on its own.
\<close>

theorem cap_exceeded_then_next_record:
  assumes "\<not> contains (ustr ''<page>'') line" "\<not> contains (ustr ''</page>'') line"
    "\<not> contains (ustr ''<text'') line" "\<not> contains (ustr ''</text>'') line"
    and "in_page st" "in_text st" "cap < text_lines st + 1"
  shows "parse_line cap st line
      = Inr (st\<lparr>current_text := [], text_lines := text_lines st + 1, in_text := False\<rparr>)
    \<and> (\<forall>more st2 start rest.
          (\<forall>l\<in>set more. \<not> contains (ustr ''<text'') l)
          \<and> parse_lines cap
               (st\<lparr>current_text := [], text_lines := text_lines st + 1, in_text := False\<rparr>) more
              = Inr st2
          \<and> contains (ustr ''<page>'') start
          \<longrightarrow> \<not> in_text st2
            \<and> parse_lines cap st2 (start # rest)
                = parse_lines cap
                    (st2\<lparr>in_page := False, in_text := False, current_text := [], text_lines := 0\<rparr>)
                    (start # rest))"
proof -
  let ?st1 = "st\<lparr>current_text := [], text_lines := text_lines st + 1, in_text := False\<rparr>"
  have 1: "parse_line cap st line = Inr ?st1"
    using plain_line_step[OF assms(1-6), of cap] assms(7) by simp
  have 2: "\<not> in_text st2 \<and> parse_lines cap st2 (start # rest)
        = parse_lines cap
            (st2\<lparr>in_page := False, in_text := False, current_text := [], text_lines := 0\<rparr>)
            (start # rest)"
    if more: "\<forall>l\<in>set more. \<not> contains (ustr ''<text'') l"
      and run: "parse_lines cap ?st1 more = Inr st2"
      and start: "contains (ustr ''<page>'') start"
    for more st2 start rest
  proof -
    from parse_lines_not_in_text[OF run _ more] have flag: "\<not> in_text st2" by simp
    then have same: "st2\<lparr>in_text := False\<rparr> = st2" by (cases st2) simp
    have "parse_lines cap
            (st2\<lparr>in_page := False, in_text := False, current_text := [], text_lines := 0\<rparr>)
            (start # rest)
        = parse_lines cap (st2\<lparr>in_text := False\<rparr>) (start # rest)"
      using start by (simp add: parse_line_start and_then_def)
    then have "parse_lines cap
            (st2\<lparr>in_page := False, in_text := False, current_text := [], text_lines := 0\<rparr>)
            (start # rest)
        = parse_lines cap st2 (start # rest)"
      unfolding same .
    then show ?thesis using flag by (intro conjI) (rule flag, rule sym)
  qed
  from 1 2 show ?thesis by blast
qed

theorem cap_exceeded_then_next_record_witness:
  "\<not> contains (ustr ''<page>'') (ustr ''x'' @ [10])
   \<and> \<not> contains (ustr ''</page>'') (ustr ''x'' @ [10])
   \<and> \<not> contains (ustr ''<text'') (ustr ''x'' @ [10])
   \<and> \<not> contains (ustr ''</text>'') (ustr ''x'' @ [10])
   \<and> max_text_lines < 10000 + 1
   \<and> parse_line max_text_lines
        \<lparr>in_page = True, in_text = True, current_text = replicate 10000 (ustr ''x'' @ [10]),
          text_lines = 10000, articles_processed = 0, articles_matched = 0,
          total_words_written = 0, temp_file = None, output_file = None\<rparr> (ustr ''x'' @ [10])
      = Inr \<lparr>in_page = True, in_text = False, current_text = [], text_lines = 10001,
          articles_processed = 0, articles_matched = 0, total_words_written = 0,
          temp_file = None, output_file = None\<rparr>
   \<and> list_all (\<lambda>l. \<not> contains (ustr ''<text'') l) [ustr ''x'' @ [10], ustr ''</page>'' @ [10]]
   \<and> parse_lines max_text_lines
        \<lparr>in_page = True, in_text = False, current_text = [], text_lines = 10001,
          articles_processed = 0, articles_matched = 0, total_words_written = 0,
          temp_file = None, output_file = None\<rparr>
        [ustr ''x'' @ [10], ustr ''</page>'' @ [10]]
      = Inr \<lparr>in_page = False, in_text = False, current_text = [], text_lines = 10001,
          articles_processed = 0, articles_matched = 0, total_words_written = 0,
          temp_file = None, output_file = None\<rparr>
   \<and> contains (ustr ''<page>'') (ustr ''<page>'' @ [10])
   \<and> parse_lines max_text_lines
        \<lparr>in_page = False, in_text = False, current_text = [], text_lines = 10001,
          articles_processed = 0, articles_matched = 0, total_words_written = 0,
          temp_file = None, output_file = None\<rparr>
        [ustr ''<page>'' @ [10], ustr ''<text>Xin ch'' @ [224] @ ustr ''o.'' @ [10],
         ustr ''</text>'' @ [10], ustr ''</page>'' @ [10]]
      = Inr \<lparr>in_page = False, in_text = False, current_text = [], text_lines = 0,
          articles_processed = 1, articles_matched = 1, total_words_written = 2,
          temp_file = Some [[CHR ''c'', CHR ''h'', CHR 0xC3, CHR 0xA0, CHR ''o''], ''xin''],
          output_file = None\<rparr>"
proof -
  let ?x = "ustr ''x'' @ [10]"
  let ?st = "\<lparr>in_page = True, in_text = True, current_text = replicate 10000 ?x,
          text_lines = 10000, articles_processed = 0, articles_matched = 0,
          total_words_written = 0, temp_file = None, output_file = None\<rparr>"
  let ?st1 = "\<lparr>in_page = True, in_text = False, current_text = [], text_lines = 10001,
          articles_processed = 0, articles_matched = 0, total_words_written = 0,
          temp_file = None, output_file = None\<rparr>"
  let ?st2 = "\<lparr>in_page = False, in_text = False, current_text = [], text_lines = 10001,
          articles_processed = 0, articles_matched = 0, total_words_written = 0,
          temp_file = None, output_file = None\<rparr>"
  let ?more = "[?x, ustr ''</page>'' @ [10]]"
  let ?rest = "[ustr ''<text>Xin ch'' @ [224] @ ustr ''o.'' @ [10],
         ustr ''</text>'' @ [10], ustr ''</page>'' @ [10]]"
  have plain: "\<not> contains (ustr ''<page>'') ?x" "\<not> contains (ustr ''</page>'') ?x"
    "\<not> contains (ustr ''<text'') ?x" "\<not> contains (ustr ''</text>'') ?x"
    by (simp_all add: ustr_def)
  have st: "in_page ?st" "in_text ?st" "max_text_lines < text_lines ?st + 1"
    by (simp_all add: max_text_lines_def)
  have st1: "?st\<lparr>current_text := [], text_lines := text_lines ?st + 1, in_text := False\<rparr> = ?st1"
    by simp
  have more: "\<forall>l\<in>set ?more. \<not> contains (ustr ''<text'') l"
    by (simp add: ustr_def)
  have run: "parse_lines max_text_lines ?st1 ?more = Inr ?st2"
    by (simp add: rx_defs extract_defs parse_defs)
  have start: "contains (ustr ''<page>'') (ustr ''<page>'' @ [10])"
    by (simp add: ustr_def)
  have idle: "parse_lines max_text_lines
        (?st2\<lparr>in_page := False, in_text := False, current_text := [], text_lines := 0\<rparr>)
        ((ustr ''<page>'' @ [10]) # ?rest)
      = Inr \<lparr>in_page = False, in_text = False, current_text = [], text_lines = 0,
          articles_processed = 1, articles_matched = 1, total_words_written = 2,
          temp_file = Some [[CHR ''c'', CHR ''h'', CHR 0xC3, CHR 0xA0, CHR ''o''], ''xin''],
          output_file = None\<rparr>"
    by (simp add: rx_defs str_defs extract_defs loop_simps file_defs parse_defs char_defs)
  note inst = cap_exceeded_then_next_record[OF plain st, unfolded st1]
  from inst have step: "parse_line max_text_lines ?st ?x = Inr ?st1" by blast
  from inst more run start
  have "parse_lines max_text_lines ?st2 ((ustr ''<page>'' @ [10]) # ?rest)
      = parse_lines max_text_lines
          (?st2\<lparr>in_page := False, in_text := False, current_text := [], text_lines := 0\<rparr>)
          ((ustr ''<page>'' @ [10]) # ?rest)"
    by blast
  with idle have next_record: "parse_lines max_text_lines ?st2 ((ustr ''<page>'' @ [10]) # ?rest)
      = Inr \<lparr>in_page = False, in_text = False, current_text = [], text_lines = 0,
          articles_processed = 1, articles_matched = 1, total_words_written = 2,
          temp_file = Some [[CHR ''c'', CHR ''h'', CHR 0xC3, CHR 0xA0, CHR ''o''], ''xin''],
          output_file = None\<rparr>"
    by (simp only:)
  from plain st(3) step more run start next_record show ?thesis
    unfolding list_all_iff by simp
qed

text \<open>
  C3, as stated: the whole of scenario A on one line. The loop handles one marker per
  line, the first that its chain of tests finds, so this line is a record start and
  nothing else: no text is accumulated, no word is written, and with no temporary file
  \<open>save_words\<close> writes no output file.
\<close>

theorem scenario_A_one_line:
  "main \<lparr>sort_u_ok = True, sort_ok = True\<rparr> (init None None)
     (ustr ''<page><text>Xin ch'' @ [224] @ ustr ''o. Hello world.</text></page>'')
   = Inr \<lparr>in_page = True, in_text = False, current_text = [], text_lines = 0,
          articles_processed = 0, articles_matched = 0, total_words_written = 0,
          temp_file = None, output_file = None\<rparr>"
  by (simp add: rx_defs str_defs extract_defs loop_simps file_defs parse_defs save_defs)

text \<open>
  C3, amended: scenario A with the markers on lines of their own, as the dump has them.
  The text handed to \<open>extract_words\<close> splits into the spans \<open>Xin ch\<dots>o\<close> (with U+00E0),
  \<open>Hello world\<close> and an empty one; the first passes the gate and the second does not;
  the words are \<open>ch\<dots>o\<close> and \<open>xin\<close>, and the output file holds them in this order,
  whichever of the two sort paths runs.
\<close>

theorem scenario_A_lines:
  "strip_markup (ustr ''Xin ch'' @ [224] @ ustr ''o. Hello world.</text>'' @ [10])
     = Inr (ustr ''Xin ch'' @ [224] @ ustr ''o. Hello world.'' @ [10])
   \<and> re_split sentence_pattern (ustr ''Xin ch'' @ [224] @ ustr ''o. Hello world.'' @ [10])
     = [ustr ''Xin ch'' @ [224] @ ustr ''o'', ustr ''Hello world'', []]
   \<and> has_vietnamese_diacritic (ustr ''Xin ch'' @ [224] @ ustr ''o'')
   \<and> \<not> has_vietnamese_diacritic (ustr ''Hello world'')
   \<and> extract_words (ustr ''Xin ch'' @ [224] @ ustr ''o. Hello world.</text>'' @ [10])
     = Inr [ustr ''ch'' @ [224] @ ustr ''o'', ustr ''xin'']
   \<and> main \<lparr>sort_u_ok = True, sort_ok = True\<rparr> (init None None)
       (ustr ''<page>'' @ [10] @ ustr ''<text>Xin ch'' @ [224] @ ustr ''o. Hello world.</text>''
          @ [10] @ ustr ''</page>'' @ [10])
     = Inr \<lparr>in_page = False, in_text = True, current_text = [], text_lines = 0,
            articles_processed = 1, articles_matched = 1, total_words_written = 2,
            temp_file = None,
            output_file = Some [[CHR ''c'', CHR ''h'', CHR 0xC3, CHR 0xA0, CHR ''o''], ''xin'']\<rparr>
   \<and> main \<lparr>sort_u_ok = False, sort_ok = True\<rparr> (init None None)
       (ustr ''<page>'' @ [10] @ ustr ''<text>Xin ch'' @ [224] @ ustr ''o. Hello world.</text>''
          @ [10] @ ustr ''</page>'' @ [10])
     = Inr \<lparr>in_page = False, in_text = True, current_text = [], text_lines = 0,
            articles_processed = 1, articles_matched = 1, total_words_written = 2,
            temp_file = None,
            output_file = Some [[CHR ''c'', CHR ''h'', CHR 0xC3, CHR 0xA0, CHR ''o''], ''xin'']\<rparr>"
  by (simp add: rx_defs str_defs extract_defs loop_simps file_defs parse_defs save_defs char_defs)

text \<open>
  C4. On a temporary file whose lines are encoded tokens, the run of \<open>save_words\<close>
  in which \<open>sort -u\<close> fails and the fallback (\<open>sort\<close>, then the streaming pass) runs
  ends in the same state, with the same output file, as the run in which \<open>sort -u\<close>
  succeeds.
\<close>

theorem fallback_same_output:
  assumes "list_all token ws" "those (map utf8_encode ws) = Some spool" "temp_file st = Some spool"
  shows "save_words \<lparr>sort_u_ok = False, sort_ok = True\<rparr> st
      = save_words \<lparr>sort_u_ok = True, sort_ok = b\<rparr> st
    \<and> save_fallback st spool = save_primary st spool
    \<and> (\<exists>out. save_primary st spool = Inr (st\<lparr>output_file := Some out, temp_file := None\<rparr>))"
  using assms(3) save_primary_tokens[OF assms(1,2), of st] save_fallback_tokens[OF assms(1,2), of st]
  by (auto simp: save_words_def)

theorem fallback_same_output_witness:
  "list_all token [ustr ''xin'', ustr ''ch'' @ [224] @ ustr ''o'', ustr ''xin'', ustr ''anh'']
   \<and> those (map utf8_encode [ustr ''xin'', ustr ''ch'' @ [224] @ ustr ''o'', ustr ''xin'', ustr ''anh''])
       = Some [''xin'', [CHR ''c'', CHR ''h'', CHR 0xC3, CHR 0xA0, CHR ''o''], ''xin'', ''anh'']
   \<and> temp_file (init (Some [''xin'', [CHR ''c'', CHR ''h'', CHR 0xC3, CHR 0xA0, CHR ''o''], ''xin'', ''anh'']) None)
       = Some [''xin'', [CHR ''c'', CHR ''h'', CHR 0xC3, CHR 0xA0, CHR ''o''], ''xin'', ''anh'']
   \<and> save_words \<lparr>sort_u_ok = False, sort_ok = True\<rparr>
        (init (Some [''xin'', [CHR ''c'', CHR ''h'', CHR 0xC3, CHR 0xA0, CHR ''o''], ''xin'', ''anh'']) None)
      = save_words \<lparr>sort_u_ok = True, sort_ok = True\<rparr>
        (init (Some [''xin'', [CHR ''c'', CHR ''h'', CHR 0xC3, CHR 0xA0, CHR ''o''], ''xin'', ''anh'']) None)
   \<and> save_words \<lparr>sort_u_ok = True, sort_ok = True\<rparr>
        (init (Some [''xin'', [CHR ''c'', CHR ''h'', CHR 0xC3, CHR 0xA0, CHR ''o''], ''xin'', ''anh'']) None)
      = Inr (init None (Some [''anh'', [CHR ''c'', CHR ''h'', CHR 0xC3, CHR 0xA0, CHR ''o''], ''xin'']))"
proof -
  have a: "list_all token [ustr ''xin'', ustr ''ch'' @ [224] @ ustr ''o'', ustr ''xin'', ustr ''anh'']"
    by (simp add: token_def token_char_def ustr_def vietnamese_chars_def)
  have b: "those (map utf8_encode [ustr ''xin'', ustr ''ch'' @ [224] @ ustr ''o'', ustr ''xin'', ustr ''anh''])
       = Some [''xin'', [CHR ''c'', CHR ''h'', CHR 0xC3, CHR 0xA0, CHR ''o''], ''xin'', ''anh'']"
    by (simp add: file_defs ustr_def char_defs)
  have c: "temp_file (init (Some [''xin'', [CHR ''c'', CHR ''h'', CHR 0xC3, CHR 0xA0, CHR ''o''], ''xin'', ''anh'']) None)
       = Some [''xin'', [CHR ''c'', CHR ''h'', CHR 0xC3, CHR 0xA0, CHR ''o''], ''xin'', ''anh'']"
    by (simp add: init_def)
  have d: "save_words \<lparr>sort_u_ok = True, sort_ok = True\<rparr>
        (init (Some [''xin'', [CHR ''c'', CHR ''h'', CHR 0xC3, CHR 0xA0, CHR ''o''], ''xin'', ''anh'']) None)
      = Inr (init None (Some [''anh'', [CHR ''c'', CHR ''h'', CHR 0xC3, CHR 0xA0, CHR ''o''], ''xin'']))"
    by (simp add: save_defs file_defs str_defs init_def char_defs)
  from fallback_same_output[OF a b c, of True] a b c d show ?thesis by blast
qed

text \<open>
  C5. Every word that \<open>extract_words\<close> returns has two characters or more, and each is a
  lowercase letter of the word pattern: \<open>a\<close> to \<open>z\<close> or one of the 67 letters with
  diacritics; it is its own lowercase form, and neither a digit nor whitespace.
\<close>

theorem extract_words_tokens_only:
  assumes "extract_words text = Inr words" and "w \<in> set words"
  shows "2 \<le> length w
    \<and> list_all (\<lambda>c. (97 \<le> c \<and> c \<le> 122 \<or> c \<in> set vietnamese_chars)
          \<and> in_ranges word_chars c \<and> lower_cp c = [c]
          \<and> \<not> isspace c \<and> \<not> (48 \<le> c \<and> c \<le> 57)) w"
proof -
  from extract_words_tokens[OF assms(1)] assms(2) have t: "token w" by blast
  then have "list_all token_char w" "2 \<le> length w" by (simp_all add: token_def)
  moreover have "token_char c \<Longrightarrow> (97 \<le> c \<and> c \<le> 122 \<or> c \<in> set vietnamese_chars)
          \<and> in_ranges word_chars c \<and> lower_cp c = [c]
          \<and> \<not> isspace c \<and> \<not> (48 \<le> c \<and> c \<le> 57)" for c
    using token_char_facts[of c] by (simp add: token_char_def)
  ultimately show ?thesis unfolding list_all_iff by blast
qed

theorem extract_words_tokens_only_witness:
  "extract_words (ustr ''Xin ch'' @ [224] @ ustr ''o. Hello 42 world.'')
     = Inr [ustr ''ch'' @ [224] @ ustr ''o'', ustr ''xin'']
   \<and> 2 \<le> length (ustr ''ch'' @ [224] @ ustr ''o'')
   \<and> list_all (\<lambda>c. (97 \<le> c \<and> c \<le> 122 \<or> c \<in> set vietnamese_chars)
          \<and> in_ranges word_chars c \<and> lower_cp c = [c]
          \<and> \<not> isspace c \<and> \<not> (48 \<le> c \<and> c \<le> 57)) (ustr ''ch'' @ [224] @ ustr ''o'')"
proof -
  have e: "extract_words (ustr ''Xin ch'' @ [224] @ ustr ''o. Hello 42 world.'')
     = Inr [ustr ''ch'' @ [224] @ ustr ''o'', ustr ''xin'']"
    by (simp add: rx_defs str_defs extract_defs loop_simps)
  have m: "ustr ''ch'' @ [224] @ ustr ''o'' \<in> set [ustr ''ch'' @ [224] @ ustr ''o'', ustr ''xin'']"
    by simp
  from extract_words_tokens_only[OF e m] e show ?thesis by blast
qed

text \<open>
  C6. A span with no diacritic character, that is, none of the 67 letters of
  \<open>vietnamese_chars\<close> and none of their capitals (the letters of Latin-1 less 32, the
  others less 1), contributes nothing: the loop leaves the set of words as it was. The
  gate lets through exactly the spans that have such a character, which are the spans
  whose lowercased form has a letter of \<open>vietnamese_chars\<close>, and the words of a text are
  exactly those contributed by the spans that pass.
\<close>

theorem span_without_diacritic_contributes_nothing:
  "((\<forall>c\<in>set span. c \<notin> set vietnamese_chars
        \<and> c \<notin> set (map (\<lambda>d. if d < 256 then d - 32 else d - 1) vietnamese_chars))
      \<longrightarrow> add_sentence acc span = acc)
   \<and> (has_vietnamese_diacritic span \<longleftrightarrow>
        (\<exists>c\<in>set span. c \<in> set vietnamese_chars
           \<or> c \<in> set (map (\<lambda>d. if d < 256 then d - 32 else d - 1) vietnamese_chars)))
   \<and> (\<not> (\<exists>c\<in>set (lower span). c \<in> set vietnamese_chars) \<longrightarrow> add_sentence acc span = acc)
   \<and> (strip_markup text = Inr plain \<longrightarrow>
        (\<exists>words. extract_words text = Inr words \<and>
           set words =
             (\<Union>s\<in>{s \<in> set (re_split sentence_pattern plain).
                     \<exists>c\<in>set (lower s). c \<in> set vietnamese_chars}.
                {lower w |w. w \<in> set (re_findall word_pattern s) \<and> 2 \<le> length (lower w)})))"
proof -
  have 1: "add_sentence acc span = acc"
    if "\<forall>c\<in>set span. c \<notin> set vietnamese_chars
        \<and> c \<notin> set (map (\<lambda>d. if d < 256 then d - 32 else d - 1) vietnamese_chars)"
  proof -
    from that have "\<not> has_vietnamese_diacritic span" unfolding gate_chars by blast
    then show ?thesis by (simp add: add_sentence_def)
  qed
  have 2: "has_vietnamese_diacritic span \<longleftrightarrow>
        (\<exists>c\<in>set span. c \<in> set vietnamese_chars
           \<or> c \<in> set (map (\<lambda>d. if d < 256 then d - 32 else d - 1) vietnamese_chars))"
    by (rule gate_chars)
  have 3: "\<not> (\<exists>c\<in>set (lower span). c \<in> set vietnamese_chars) \<longrightarrow> add_sentence acc span = acc"
    by (simp add: add_sentence_def gate_iff)
  have 4: "strip_markup text = Inr plain \<longrightarrow>
        (\<exists>words. extract_words text = Inr words \<and>
           set words =
             (\<Union>s\<in>{s \<in> set (re_split sentence_pattern plain).
                     \<exists>c\<in>set (lower s). c \<in> set vietnamese_chars}.
                {lower w |w. w \<in> set (re_findall word_pattern s) \<and> 2 \<le> length (lower w)}))"
    using extract_words_set[of _ plain] by (simp add: gate_iff)
  from 1 2 3 4 show ?thesis by blast
qed

theorem span_without_diacritic_contributes_nothing_witness:
  "list_all (\<lambda>c. c \<notin> set vietnamese_chars
        \<and> c \<notin> set (map (\<lambda>d. if d < 256 then d - 32 else d - 1) vietnamese_chars))
      (ustr ''Hello world'')
   \<and> \<not> (\<exists>c\<in>set (lower (ustr ''Hello world'')). c \<in> set vietnamese_chars)
   \<and> add_sentence [ustr ''xin''] (ustr ''Hello world'') = [ustr ''xin'']
   \<and> strip_markup (ustr ''Xin ch'' @ [224] @ ustr ''o. Hello world'')
       = Inr (ustr ''Xin ch'' @ [224] @ ustr ''o. Hello world'')
   \<and> (\<exists>words. extract_words (ustr ''Xin ch'' @ [224] @ ustr ''o. Hello world'') = Inr words \<and>
           set words =
             (\<Union>s\<in>{s \<in> set (re_split sentence_pattern
                               (ustr ''Xin ch'' @ [224] @ ustr ''o. Hello world'')).
                     \<exists>c\<in>set (lower s). c \<in> set vietnamese_chars}.
                {lower w |w. w \<in> set (re_findall word_pattern s) \<and> 2 \<le> length (lower w)}))"
proof -
  have a: "\<forall>c\<in>set (ustr ''Hello world''). c \<notin> set vietnamese_chars
        \<and> c \<notin> set (map (\<lambda>d. if d < 256 then d - 32 else d - 1) vietnamese_chars)"
    by (simp add: ustr_def vietnamese_chars_def)
  have b: "\<not> (\<exists>c\<in>set (lower (ustr ''Hello world'')). c \<in> set vietnamese_chars)"
    by (simp add: ustr_def str_defs)
  have c: "strip_markup (ustr ''Xin ch'' @ [224] @ ustr ''o. Hello world'')
       = Inr (ustr ''Xin ch'' @ [224] @ ustr ''o. Hello world'')"
    by (simp add: rx_defs str_defs extract_defs loop_simps)
  from span_without_diacritic_contributes_nothing[of "ustr ''Hello world''" "[ustr ''xin'']"
      "ustr ''Xin ch'' @ [224] @ ustr ''o. Hello world''"
      "ustr ''Xin ch'' @ [224] @ ustr ''o. Hello world''"] a b c
  show ?thesis unfolding list_all_iff by blast
qed

text \<open>
  C7. The last substitution is meant to remove category and file links whatever the case
  of the keyword. The flag is passed where \<open>re.sub\<close> expects \<open>count\<close>, so the keyword is
  matched case-sensitively (and at most two links are removed): a link spelled
  \<open>category\<close> or with a lowercase Vietnamese keyword stays in the text, and where its
  span passes the gate its words are extracted; the same link with the keyword
  capitalised is removed.
\<close>

theorem category_pass_case_sensitive:
  "re_sub category_rx [] (ustr ''[[category:abc]]'') IGNORECASE = Inr (ustr ''[[category:abc]]'')
   \<and> re_sub category_rx [] (ustr ''[[Category:abc]]'') IGNORECASE = Inr []
   \<and> strip_markup (ustr ''[<i>[category:abc]]'') = Inr (ustr ''[[category:abc]]'')
   \<and> strip_markup (ustr ''[<i>[Category:abc]]'') = Inr []
   \<and> extract_words (ustr ''[<i>[th'' @ [7875] @ ustr '' lo'' @ [7841] @ ustr ''i:abc]]'')
       = Inr [ustr ''abc'', ustr ''lo'' @ [7841] @ ustr ''i'', ustr ''th'' @ [7875]]
   \<and> extract_words (ustr ''[<i>[Th'' @ [7875] @ ustr '' lo'' @ [7841] @ ustr ''i:abc]]'') = Inr []"
  by (simp add: rx_defs str_defs extract_defs loop_simps)

text \<open>
  C8. The stripping, filtering and extraction logic is total: \<open>extract_words\<close> returns a
  set of words, possibly empty, for every text, and raises nothing. In the model every
  loop is a terminating recursion, and the one error \<open>re.sub\<close> can raise, a template
  that names a group its pattern lacks, arises for none of the six substitutions.
\<close>

theorem extract_words_total: "\<exists>words. extract_words text = Inr words"
  by (simp add: extract_words_def strip_markup_def and_then_def re_sub_def rx_defs IGNORECASE_def)

text \<open>
  C9. The gate looks at the lowercased span: a span qualifies exactly when its lowercased
  form has a character of \<open>vietnamese_chars\<close>, that is, when one of its characters
  lowercases to such a letter. The span \<open>\<dots>bc\<close> that starts with U+00C0 has no
  character of \<open>vietnamese_chars\<close>, qualifies, and contributes the word \<open>bc\<close>.
\<close>

theorem gate_case_insensitive:
  "(has_vietnamese_diacritic span \<longleftrightarrow> (\<exists>c\<in>set (lower span). c \<in> set vietnamese_chars))
   \<and> (has_vietnamese_diacritic span
        \<longleftrightarrow> (\<exists>c\<in>set span. \<exists>d\<in>set (lower_cp c). d \<in> set vietnamese_chars))
   \<and> has_vietnamese_diacritic [192]
   \<and> list_all (\<lambda>c. c \<notin> set vietnamese_chars) ([192] @ ustr ''bc'')
   \<and> has_vietnamese_diacritic ([192] @ ustr ''bc'')
   \<and> extract_words ([192] @ ustr ''bc'') = Inr [ustr ''bc'']"
proof -
  have 1: "has_vietnamese_diacritic span \<longleftrightarrow> (\<exists>c\<in>set (lower span). c \<in> set vietnamese_chars)"
    by (rule gate_iff)
  have 2: "has_vietnamese_diacritic span
        \<longleftrightarrow> (\<exists>c\<in>set span. \<exists>d\<in>set (lower_cp c). d \<in> set vietnamese_chars)"
    unfolding gate_iff by (auto simp: lower_def)
  have 3: "has_vietnamese_diacritic [192]
   \<and> list_all (\<lambda>c. c \<notin> set vietnamese_chars) ([192] @ ustr ''bc'')
   \<and> has_vietnamese_diacritic ([192] @ ustr ''bc'')
   \<and> extract_words ([192] @ ustr ''bc'') = Inr [ustr ''bc'']"
    by (simp add: rx_defs str_defs extract_defs loop_simps)
  from 1 2 3 show ?thesis by blast
qed

text \<open>
  C10. A line with the record-start marker resets the accumulator and the line counter
  whatever the state was; what the loop does from that line on does not depend on what
  the accumulator and the counter held before; and every piece of text accumulated
  afterwards is a piece of a line read after the marker line.
\<close>

theorem start_marker_resets:
  assumes "contains (ustr ''<page>'') line"
  shows "parse_line cap st line = Inr (st\<lparr>in_page := True, current_text := [], text_lines := 0\<rparr>)
    \<and> parse_lines cap (st\<lparr>current_text := ct, text_lines := n\<rparr>) (line # rest)
        = parse_lines cap st (line # rest)
    \<and> (\<forall>st'. parse_lines cap st (line # rest) = Inr st' \<longrightarrow>
          (\<forall>t\<in>set (current_text st'). \<exists>l\<in>set rest. sublist t l))"
proof -
  have 1: "parse_line cap st line = Inr (st\<lparr>in_page := True, current_text := [], text_lines := 0\<rparr>)"
    by (rule parse_line_start[OF assms])
  have 2: "parse_lines cap (st\<lparr>current_text := ct, text_lines := n\<rparr>) (line # rest)
        = parse_lines cap st (line # rest)"
    using assms by (simp add: parse_line_start and_then_def)
  have 3: "\<exists>l\<in>set rest. sublist t l"
    if run: "parse_lines cap st (line # rest) = Inr st'" and t: "t \<in> set (current_text st')"
    for st' t
  proof -
    from run 1 have "parse_lines cap (st\<lparr>in_page := True, current_text := [], text_lines := 0\<rparr>) rest
        = Inr st'"
      by (simp add: and_then_def)
    from parse_lines_text[OF this t] show ?thesis by simp
  qed
  from 1 2 3 show ?thesis by blast
qed

theorem start_marker_resets_witness:
  "contains (ustr ''<page>'') (ustr ''  <page>'' @ [10])
   \<and> parse_line max_text_lines
        \<lparr>in_page = True, in_text = True, current_text = [ustr ''stale''], text_lines = 7,
          articles_processed = 0, articles_matched = 0, total_words_written = 0,
          temp_file = None, output_file = None\<rparr> (ustr ''  <page>'' @ [10])
      = Inr \<lparr>in_page = True, in_text = True, current_text = [], text_lines = 0,
          articles_processed = 0, articles_matched = 0, total_words_written = 0,
          temp_file = None, output_file = None\<rparr>
   \<and> parse_lines max_text_lines
        \<lparr>in_page = True, in_text = True, current_text = [ustr ''stale''], text_lines = 7,
          articles_processed = 0, articles_matched = 0, total_words_written = 0,
          temp_file = None, output_file = None\<rparr>
        [ustr ''  <page>'' @ [10], ustr ''fresh'' @ [10]]
      = Inr \<lparr>in_page = True, in_text = True, current_text = [ustr ''fresh'' @ [10]], text_lines = 1,
          articles_processed = 0, articles_matched = 0, total_words_written = 0,
          temp_file = None, output_file = None\<rparr>
   \<and> list_all (\<lambda>t. list_ex (sublist t) [ustr ''fresh'' @ [10]]) [ustr ''fresh'' @ [10]]"
proof -
  let ?st = "\<lparr>in_page = True, in_text = True, current_text = [ustr ''stale''], text_lines = 7,
          articles_processed = 0, articles_matched = 0, total_words_written = 0,
          temp_file = None, output_file = None\<rparr>"
  let ?st' = "\<lparr>in_page = True, in_text = True, current_text = [ustr ''fresh'' @ [10]], text_lines = 1,
          articles_processed = 0, articles_matched = 0, total_words_written = 0,
          temp_file = None, output_file = None\<rparr>"
  have c: "contains (ustr ''<page>'') (ustr ''  <page>'' @ [10])"
    by (simp add: ustr_def)
  have run: "parse_lines max_text_lines ?st [ustr ''  <page>'' @ [10], ustr ''fresh'' @ [10]] = Inr ?st'"
    by (simp add: rx_defs extract_defs parse_defs)
  from start_marker_resets[OF c, of max_text_lines ?st _ _ "[ustr ''fresh'' @ [10]]"] run
  have "parse_line max_text_lines ?st (ustr ''  <page>'' @ [10])
      = Inr (?st\<lparr>in_page := True, current_text := [], text_lines := 0\<rparr>)"
    and "\<forall>t\<in>set (current_text ?st'). \<exists>l\<in>set [ustr ''fresh'' @ [10]]. sublist t l"
    by blast+
  then show ?thesis using c run unfolding list_all_iff list_ex_iff by simp
qed

end
